theory Spec2Isabelle
  imports Complex_Main "HOL-Library.Log_Nat" "HOL-Library.Multiset" "HOL-Library.Signed_Division"
begin

section \<open>JavaScript numbers\<close>

text \<open>
  Every TypeScript \<open>number\<close> is an IEEE-754 double. A finite double is modelled by the
  rational it denotes, next to the two infinities and NaN. The sign of zero is not
  modelled: none of the functions below divides by a zero that could be negative, and
  no output prints one. Each arithmetic operation computes the exact rational result and
  rounds it to the nearest double, ties to even (\<open>fl\<close>), as the hardware does.
\<close>

datatype jsnum = Fin rat | PInf | NInf | NaN

definition pow2 :: "int \<Rightarrow> rat" where
  "pow2 e = (if 0 \<le> e then 2 ^ nat e else 1 / 2 ^ nat (- e))"

definition ilog2 :: "rat \<Rightarrow> int" where
  \<comment> \<open>for \<open>0 < a\<close>: the exponent \<open>e\<close> with \<open>2^e \<le> a < 2^(e+1)\<close>\<close>
  "ilog2 a = (if 1 \<le> a then int (floorlog 2 (nat \<lfloor>a\<rfloor>)) - 1
              else - int (floorlog 2 (nat (\<lceil>1 / a\<rceil> - 1))))"

definition round_even :: "rat \<Rightarrow> int" where
  "round_even x = (let f = \<lfloor>x\<rfloor>; d = x - of_int f in
     if d < 1 / 2 then f else if 1 / 2 < d then f + 1 else if even f then f else f + 1)"

definition fl :: "rat \<Rightarrow> jsnum" where
  \<comment> \<open>round to nearest double: 53 significant bits, least exponent -1022 (subnormals
      share the quantum \<open>2^-1074\<close>), overflow to infinity from \<open>2^1024 - 2^970\<close> on\<close>
  "fl x = (if x = 0 then Fin 0
           else let a = \<bar>x\<bar> in
             if pow2 1024 - pow2 970 \<le> a then (if 0 < x then PInf else NInf)
             else let e = max (ilog2 a) (- 1022);
                      q = pow2 (e - 52);
                      v = of_int (round_even (a / q)) * q
                  in Fin (if 0 < x then v else - v))"

definition on_grid :: "rat \<Rightarrow> bool" where
  \<comment> \<open>every finite double is an integer multiple of the least subnormal\<close>
  "on_grid v = (\<exists>m::int. v = of_int m * pow2 (- 1074))"

definition of_int_js :: "int \<Rightarrow> jsnum" where
  \<comment> \<open>an integer-valued number (a length, a counter, a score): exact below \<open>2^53\<close>\<close>
  "of_int_js i = Fin (of_int i)"

fun fneg :: "jsnum \<Rightarrow> jsnum" where
  "fneg (Fin a) = Fin (- a)"
| "fneg PInf = NInf"
| "fneg NInf = PInf"
| "fneg NaN = NaN"

fun fadd :: "jsnum \<Rightarrow> jsnum \<Rightarrow> jsnum" where
  "fadd NaN _ = NaN"
| "fadd _ NaN = NaN"
| "fadd (Fin a) (Fin b) = fl (a + b)"
| "fadd PInf NInf = NaN"
| "fadd NInf PInf = NaN"
| "fadd PInf _ = PInf"
| "fadd NInf _ = NInf"
| "fadd (Fin a) PInf = PInf"
| "fadd (Fin a) NInf = NInf"

definition fsub :: "jsnum \<Rightarrow> jsnum \<Rightarrow> jsnum" where
  "fsub x y = fadd x (fneg y)"

fun fsign :: "jsnum \<Rightarrow> int" where
  "fsign (Fin a) = (if 0 < a then 1 else if a < 0 then - 1 else 0)"
| "fsign PInf = 1"
| "fsign NInf = - 1"
| "fsign NaN = 0"

definition inf_of_sign :: "int \<Rightarrow> jsnum" where
  "inf_of_sign s = (if 0 < s then PInf else if s < 0 then NInf else NaN)"

fun fmul :: "jsnum \<Rightarrow> jsnum \<Rightarrow> jsnum" where
  "fmul NaN _ = NaN"
| "fmul _ NaN = NaN"
| "fmul (Fin a) (Fin b) = fl (a * b)"
| "fmul x y = inf_of_sign (fsign x * fsign y)"

fun fdiv :: "jsnum \<Rightarrow> jsnum \<Rightarrow> jsnum" where
  "fdiv NaN _ = NaN"
| "fdiv _ NaN = NaN"
| "fdiv (Fin a) (Fin b) = (if b = 0 then inf_of_sign (fsign (Fin a)) else fl (a / b))"
| "fdiv (Fin a) _ = Fin 0"
| "fdiv x (Fin b) = (if b < 0 then fneg x else x)"
| "fdiv _ _ = NaN"

fun flt :: "jsnum \<Rightarrow> jsnum \<Rightarrow> bool" where
  "flt NaN _ = False"
| "flt _ NaN = False"
| "flt (Fin a) (Fin b) = (a < b)"
| "flt NInf y = (y \<noteq> NInf)"
| "flt x PInf = (x \<noteq> PInf)"
| "flt _ _ = False"

definition fgt :: "jsnum \<Rightarrow> jsnum \<Rightarrow> bool" where
  "fgt x y = flt y x"

definition fle :: "jsnum \<Rightarrow> jsnum \<Rightarrow> bool" where
  "fle x y = (x \<noteq> NaN \<and> y \<noteq> NaN \<and> \<not> flt y x)"

definition fge :: "jsnum \<Rightarrow> jsnum \<Rightarrow> bool" where
  "fge x y = fle y x"

definition Math_min :: "jsnum \<Rightarrow> jsnum \<Rightarrow> jsnum" where
  "Math_min x y = (if x = NaN \<or> y = NaN then NaN else if flt y x then y else x)"

definition Math_max :: "jsnum \<Rightarrow> jsnum \<Rightarrow> jsnum" where
  "Math_max x y = (if x = NaN \<or> y = NaN then NaN else if flt x y then y else x)"

fun Math_round :: "jsnum \<Rightarrow> jsnum" where
  \<comment> \<open>\<open>floor(x + 1/2)\<close>: exact, since doubles from \<open>2^52\<close> on are integers\<close>
  "Math_round (Fin a) = Fin (of_int \<lfloor>a + 1 / 2\<rfloor>)"
| "Math_round x = x"

fun Math_floor :: "jsnum \<Rightarrow> jsnum" where
  "Math_floor (Fin a) = Fin (of_int \<lfloor>a\<rfloor>)"
| "Math_floor x = x"

section \<open>probabilityScoring.ts: scores of a single number\<close>

record Draw =
  date :: string
  numbers :: "int list"
  stars :: "int list"

datatype pool = Numbers | Stars

record NumberProbability =
  number :: int
  frequencyScore :: int
  hotColdScore :: int
  patternScore :: int
  overdueScore :: int
  totalScore :: int
  winChance :: jsnum

definition pool_of :: "pool \<Rightarrow> Draw \<Rightarrow> int list" where
  \<comment> \<open>\<open>type === 'numbers' ? draw.numbers : draw.stars\<close>\<close>
  "pool_of t draw = (if t = Numbers then numbers draw else stars draw)"

definition count_includes :: "int \<Rightarrow> pool \<Rightarrow> Draw list \<Rightarrow> int" where
  \<comment> \<open>\<open>draws.forEach(draw => { if (pool.includes(number)) counter++ })\<close>\<close>
  "count_includes n t draws =
     fold (\<lambda>draw c. if n \<in> set (pool_of t draw) then c + 1 else c) draws 0"

definition calculateFrequencyScore :: "int \<Rightarrow> Draw list \<Rightarrow> pool \<Rightarrow> int" where
  \<comment> \<open>the local \<open>maxNumber\<close> is never read; the decimal literals are the nearest doubles\<close>
  "calculateFrequencyScore n draws t =
    (let expectedAppearances =
           (if t = Numbers
            then fmul (of_int_js (int (length draws))) (fdiv (Fin 5) (Fin 50))
            else fmul (of_int_js (int (length draws))) (fdiv (Fin 2) (Fin 12)));
         appearances = count_includes n t draws;
         ratio = (if fgt expectedAppearances (Fin 0)
                  then fdiv (of_int_js appearances) expectedAppearances else Fin 0)
     in if fge ratio (fl (8 / 10)) \<and> fle ratio (fl (12 / 10)) then 40
        else if fge ratio (fl (6 / 10)) \<and> flt ratio (fl (8 / 10)) then 30
        else if fgt ratio (fl (12 / 10)) \<and> fle ratio (fl (15 / 10)) then 35
        else if fgt ratio (fl (15 / 10)) then 25
        else 20)"

definition calculateHotColdScore :: "int \<Rightarrow> Draw list \<Rightarrow> pool \<Rightarrow> int" where
  "calculateHotColdScore n draws t =
    (let recentDraws = take 10 draws;
         midDraws = take 20 draws;
         recentCount = count_includes n t recentDraws;
         midCount = count_includes n t midDraws;
         recentRate = fdiv (of_int_js recentCount) (Fin 10);
         midRate = (if 0 < length midDraws then fdiv (of_int_js midCount) (Fin 20) else Fin 0)
     in if 3 \<le> recentCount \<and> fgt recentRate midRate then 30
        else if 2 \<le> recentCount then 25
        else if recentCount = 1 then 20
        else if recentCount = 0 \<and> 2 \<le> midCount then 22
        else 15)"

definition calculatePatternScore :: "int \<Rightarrow> pool \<Rightarrow> int" where
  \<comment> \<open>\<open>%\<close> is the truncating remainder \<open>smod\<close>\<close>
  "calculatePatternScore n t =
    (if t = Stars then 15
     else let score = 10;
              score = (if 15 \<le> n \<and> n \<le> 35 then score + 5 else score);
              score = (if n smod 2 \<noteq> 0 then score + 3 else score);
              score = (if n smod 5 = 0 then score - 3 else score)
          in max 0 (min 20 score))"

fun lastSeen_loop :: "int \<Rightarrow> pool \<Rightarrow> Draw list \<Rightarrow> int \<Rightarrow> int" where
  \<comment> \<open>the \<open>for\<close> loop with \<open>break\<close>: the first index from \<open>i\<close> on whose draw includes
      the number, or the initial \<open>-1\<close>\<close>
  "lastSeen_loop n t [] i = - 1"
| "lastSeen_loop n t (draw # rest) i =
     (if n \<in> set (pool_of t draw) then i else lastSeen_loop n t rest (i + 1))"

definition calculateOverdueScore :: "int \<Rightarrow> Draw list \<Rightarrow> pool \<Rightarrow> int" where
  "calculateOverdueScore n draws t =
    (let expectedInterval = (if t = Numbers then 10 else 6);
         lastSeen = lastSeen_loop n t draws 0
     in if lastSeen = - 1 then 10
        else if expectedInterval * 2 < lastSeen then 10
        else if expectedInterval < lastSeen then 7
        else if lastSeen = 0 then 2
        else 5)"

definition calculateNumberProbability :: "int \<Rightarrow> Draw list \<Rightarrow> pool \<Rightarrow> NumberProbability" where
  "calculateNumberProbability n draws t =
    (let fs = calculateFrequencyScore n draws t;
         hs = calculateHotColdScore n draws t;
         ps = calculatePatternScore n t;
         os = calculateOverdueScore n draws t;
         total = fs + hs + ps + os;
         wc = fmul (fdiv (of_int_js total) (Fin 100)) (Fin 100)
     in \<lparr>number = n, frequencyScore = fs, hotColdScore = hs, patternScore = ps,
         overdueScore = os, totalScore = total, winChance = wc\<rparr>)"


section \<open>Strings and sorting\<close>

text \<open>
  Strings are byte lists; a character outside ASCII stands as its UTF-8 bytes.
  \<open>show_nat\<close> is the decimal rendering of a non-negative integer inside a template
  literal. \<open>toFixed2\<close> is \<open>Number.prototype.toFixed(2)\<close>: the integer \<open>n\<close> nearest to
  \<open>100 x\<close>, the larger one on a tie, printed with two decimals. (From \<open>10^21\<close> on
  JavaScript prints an exponent instead; the program never formats a number above 100.)
\<close>

definition digit_char :: "nat \<Rightarrow> char" where
  "digit_char d = ''0123456789'' ! (d mod 10)"

fun show_nat :: "nat \<Rightarrow> string" where
  "show_nat n = (if n < 10 then [digit_char n] else show_nat (n div 10) @ [digit_char n])"

fun toFixed2 :: "jsnum \<Rightarrow> string" where
  "toFixed2 NaN = ''NaN''"
| "toFixed2 PInf = ''Infinity''"
| "toFixed2 NInf = ''-Infinity''"
| "toFixed2 (Fin x) =
     (let n = nat \<lfloor>\<bar>x\<bar> * 100 + 1 / 2\<rfloor>;
          s = show_nat (n div 100) @ ''.'' @ [digit_char (n div 10), digit_char n]
      in if x < 0 then ''-'' @ s else s)"

text \<open>
  \<open>Array.prototype.sort\<close> is stable. \<open>sort_by gt\<close> is the stable insertion sort for a
  comparator \<open>cmp\<close>, where \<open>gt a b\<close> stands for \<open>cmp(a, b) > 0\<close>: an element moves behind
  those it compares greater than. Every stable sort returns this list when the comparator
  is consistent, as all comparators below are on the values they meet.
\<close>

fun insert_by :: "('a \<Rightarrow> 'a \<Rightarrow> bool) \<Rightarrow> 'a \<Rightarrow> 'a list \<Rightarrow> 'a list" where
  "insert_by gt x [] = [x]"
| "insert_by gt x (y # ys) = (if gt x y then y # insert_by gt x ys else x # y # ys)"

definition sort_by :: "('a \<Rightarrow> 'a \<Rightarrow> bool) \<Rightarrow> 'a list \<Rightarrow> 'a list" where
  "sort_by gt xs = foldr (insert_by gt) xs []"

definition sort_asc :: "int list \<Rightarrow> int list" where
  \<comment> \<open>\<open>.sort((a, b) => a - b)\<close>\<close>
  "sort_asc xs = sort_by (\<lambda>a b. 0 < a - b) xs"

section \<open>probabilityScoring.ts: scores of a combination\<close>

definition getAllNumberProbabilities :: "Draw list \<Rightarrow> pool \<Rightarrow> NumberProbability list" where
  "getAllNumberProbabilities draws t =
    (let maxNumber = (if t = Numbers then 50 else 12);
         probabilities = map (\<lambda>i. calculateNumberProbability i draws t) [1..maxNumber]
     in sort_by (\<lambda>a b. 0 < totalScore b - totalScore a) probabilities)"

record Breakdown =
  frequencyScore :: jsnum
  hotColdScore :: jsnum
  patternScore :: jsnum
  overdueScore :: jsnum

record CombinationScore =
  numbers :: "int list"
  stars :: "int list"
  probabilityScore :: jsnum
  winChance :: string
  breakdown :: Breakdown

definition add_scores :: "pool \<Rightarrow> Draw list \<Rightarrow> int \<Rightarrow> int \<times> int \<times> int \<times> int \<Rightarrow> int \<times> int \<times> int \<times> int" where
  \<comment> \<open>the body of both \<open>forEach\<close> callbacks, on the four running totals\<close>
  "add_scores t draws num tot =
    (case tot of (totalFrequency, totalHotCold, totalPattern, totalOverdue) \<Rightarrow>
       let prob = calculateNumberProbability num draws t
       in (totalFrequency + NumberProbability.frequencyScore prob,
           totalHotCold + NumberProbability.hotColdScore prob,
           totalPattern + NumberProbability.patternScore prob,
           totalOverdue + NumberProbability.overdueScore prob))"

definition round1 :: "jsnum \<Rightarrow> jsnum" where
  \<comment> \<open>\<open>Math.round(x * 10) / 10\<close>\<close>
  "round1 x = fdiv (Math_round (fmul x (Fin 10))) (Fin 10)"

definition scoreCombination :: "int list \<Rightarrow> int list \<Rightarrow> Draw list \<Rightarrow> CombinationScore" where
  \<comment> \<open>the locals \<open>oddCount\<close> and \<open>highCount\<close> are never read\<close>
  "scoreCombination nums strs draws =
    (case fold (add_scores Stars draws) strs (fold (add_scores Numbers draws) nums (0, 0, 0, 0)) of
       (totalFrequency, totalHotCold, totalPattern, totalOverdue) \<Rightarrow>
      let count = of_int_js (int (length nums + length strs));
          avgFrequency = fdiv (of_int_js totalFrequency) count;
          avgHotCold = fdiv (of_int_js totalHotCold) count;
          avgPattern = fdiv (of_int_js totalPattern) count;
          avgOverdue = fdiv (of_int_js totalOverdue) count;
          evenCount = length (filter (\<lambda>n. n smod 2 = 0) nums);
          lowCount = length (filter (\<lambda>n. n \<le> 25) nums);
          balanceBonus = (0::int);
          balanceBonus = (if 2 \<le> evenCount \<and> evenCount \<le> 3 then balanceBonus + 3 else balanceBonus);
          balanceBonus = (if 2 \<le> lowCount \<and> lowCount \<le> 3 then balanceBonus + 3 else balanceBonus);
          score = Math_min (Fin 100)
                    (fadd (fadd (fadd (fadd avgFrequency avgHotCold) avgPattern) avgOverdue)
                       (of_int_js balanceBonus));
          chance = toFixed2 (fmul (fdiv score (Fin 100)) (Fin 15))
      in \<lparr>numbers = nums, stars = strs,
          probabilityScore = round1 score,
          winChance = chance @ ''%'',
          breakdown = \<lparr>frequencyScore = round1 avgFrequency,
                        hotColdScore = round1 avgHotCold,
                        patternScore = round1 (fadd avgPattern (of_int_js balanceBonus)),
                        overdueScore = round1 avgOverdue\<rparr>\<rparr>)"


section \<open>smartCombinationGenerator.ts\<close>

record GeneratedCombination = CombinationScore +
  rank :: int
  confidence :: string

definition unselected :: "int list \<Rightarrow> NumberProbability \<Rightarrow> bool" where
  \<comment> \<open>\<open>c => !selected.includes(c.number)\<close>\<close>
  "unselected selected c = (number c \<notin> set selected)"

function fill_first :: "nat \<Rightarrow> NumberProbability list \<Rightarrow> int list \<Rightarrow> int list" where
  \<comment> \<open>\<open>while (selected.length < k) { const candidate = cands.find(unselected);
      if (candidate) selected.push(candidate.number); else break; }\<close>\<close>
  "fill_first k cands selected =
     (if length selected < k
      then (case List.find (unselected selected) cands of
              Some candidate \<Rightarrow> fill_first k cands (selected @ [number candidate])
            | None \<Rightarrow> selected)
      else selected)"
  by pat_completeness auto
termination
  by (relation "measure (\<lambda>(k, cands, selected). k - length selected)") auto

declare fill_first.simps [simp del]

function fill_remaining :: "NumberProbability list \<Rightarrow> int list \<Rightarrow> int list" where
  \<comment> \<open>the filling loop of \<open>selectBestNumbers\<close>, which filters and takes \<open>remaining[0]\<close>\<close>
  "fill_remaining topCandidates selected =
     (if length selected < 5
      then (case filter (unselected selected) topCandidates of
              r # _ \<Rightarrow> fill_remaining topCandidates (selected @ [number r])
            | [] \<Rightarrow> selected)
      else selected)"
  by pat_completeness auto
termination
  by (relation "measure (\<lambda>(topCandidates, selected). 5 - length selected)") auto

declare fill_remaining.simps [simp del]

fun best_loop :: "NumberProbability list \<Rightarrow> int list \<Rightarrow> int list" where
  "best_loop [] selected = selected"
| "best_loop (candidate # rest) selected =
     (if 5 \<le> length selected then selected
      else if 3 \<le> length selected \<and> (\<exists>n \<in> set selected. \<bar>n - number candidate\<bar> = 1)
           then best_loop rest selected
      else best_loop rest (selected @ [number candidate]))"

definition selectBestNumbers :: "NumberProbability list \<Rightarrow> int list" where
  "selectBestNumbers numberProbs =
    (let topCandidates = take 15 numberProbs
     in sort_asc (fill_remaining topCandidates (best_loop topCandidates [])))"

definition selectBestStars :: "NumberProbability list \<Rightarrow> int list" where
  "selectBestStars starProbs = sort_asc (map number (take 2 starProbs))"

definition push_new :: "NumberProbability \<Rightarrow> int list \<Rightarrow> int list" where
  \<comment> \<open>\<open>if (!selected.includes(c.number)) selected.push(c.number)\<close>\<close>
  "push_new c selected = (if number c \<notin> set selected then selected @ [number c] else selected)"

fun overdue_loop :: "NumberProbability list \<Rightarrow> int list \<Rightarrow> int list" where
  \<comment> \<open>\<open>for (i = 0; i < overdueNumbers.length && selected.length < 5; i++)\<close>\<close>
  "overdue_loop [] selected = selected"
| "overdue_loop (c # rest) selected =
     (if length selected < 5 then overdue_loop rest (push_new c selected) else selected)"

definition selectBalancedNumbers :: "NumberProbability list \<Rightarrow> int list" where
  "selectBalancedNumbers numberProbs =
    (let hotNumbers = take 10 (sort_by (\<lambda>a b. 0 < NumberProbability.hotColdScore b - NumberProbability.hotColdScore a) numberProbs);
         overdueNumbers = take 10 (sort_by (\<lambda>a b. 0 < NumberProbability.overdueScore b - NumberProbability.overdueScore a) numberProbs);
         selected = fold push_new (take 3 hotNumbers) [];
         selected = overdue_loop overdueNumbers selected
     in sort_asc (fill_first 5 numberProbs selected))"

fun first_new :: "NumberProbability list \<Rightarrow> int list \<Rightarrow> int list" where
  \<comment> \<open>\<open>for (const star of overdueStars) if (!selected.includes(star.number))
      { selected.push(star.number); break; }\<close>\<close>
  "first_new [] selected = selected"
| "first_new (star # rest) selected =
     (if number star \<notin> set selected then selected @ [number star] else first_new rest selected)"

definition selectBalancedStars :: "NumberProbability list \<Rightarrow> int list" where
  "selectBalancedStars starProbs =
    (let hotStars = sort_by (\<lambda>a b. 0 < NumberProbability.hotColdScore b - NumberProbability.hotColdScore a) starProbs;
         overdueStars = sort_by (\<lambda>a b. 0 < NumberProbability.overdueScore b - NumberProbability.overdueScore a) starProbs;
         selected = (case hotStars of [] \<Rightarrow> [] | s # _ \<Rightarrow> [number s]);
         selected = first_new overdueStars selected
     in sort_asc (fill_first 2 starProbs selected))"

fun pattern_loop :: "NumberProbability list \<Rightarrow> int list \<times> nat \<times> nat \<times> nat \<times> nat \<Rightarrow> int list" where
  \<comment> \<open>the state is \<open>selected\<close> with the counts of even, odd, low and high numbers\<close>
  "pattern_loop [] (selected, evenCount, oddCount, lowCount, highCount) = selected"
| "pattern_loop (candidate # rest) (selected, evenCount, oddCount, lowCount, highCount) =
     (if 5 \<le> length selected then selected
      else let isEven = (number candidate smod 2 = 0);
               isLow = (number candidate \<le> 25)
           in if isEven \<and> 3 \<le> evenCount then pattern_loop rest (selected, evenCount, oddCount, lowCount, highCount)
              else if \<not> isEven \<and> 3 \<le> oddCount then pattern_loop rest (selected, evenCount, oddCount, lowCount, highCount)
              else if isLow \<and> 3 \<le> lowCount then pattern_loop rest (selected, evenCount, oddCount, lowCount, highCount)
              else if \<not> isLow \<and> 3 \<le> highCount then pattern_loop rest (selected, evenCount, oddCount, lowCount, highCount)
              else pattern_loop rest
                     (selected @ [number candidate],
                      if isEven then evenCount + 1 else evenCount,
                      if isEven then oddCount else oddCount + 1,
                      if isLow then lowCount + 1 else lowCount,
                      if isLow then highCount else highCount + 1))"

definition selectPatternNumbers :: "NumberProbability list \<Rightarrow> int list" where
  "selectPatternNumbers numberProbs =
    (let topCandidates = take 20 numberProbs
     in sort_asc (fill_first 5 topCandidates (pattern_loop topCandidates ([], 0, 0, 0, 0))))"

text \<open>
  The weighted selections draw their pseudo-random values from \<open>Math.sin\<close>, whose result
  the language leaves to the implementation. It is a parameter \<open>msin\<close> here, so whatever
  is proved holds for every sine.
\<close>

definition random_of :: "(jsnum \<Rightarrow> jsnum) \<Rightarrow> int \<Rightarrow> int \<Rightarrow> int \<Rightarrow> int \<Rightarrow> jsnum" where
  \<comment> \<open>\<open>x = Math.sin(seed * a + index * b) * 10000; return x - Math.floor(x)\<close>\<close>
  "random_of msin a b seed index =
    (let x = fmul (msin (of_int_js (seed * a + index * b))) (Fin 10000)
     in fsub x (Math_floor x))"

fun pick_loop :: "jsnum \<Rightarrow> NumberProbability list \<Rightarrow> int list \<Rightarrow> int \<Rightarrow> int list" where
  \<comment> \<open>the inner \<open>for\<close> over the candidates; \<open>weights[j]\<close> is the candidate's \<open>totalScore\<close>\<close>
  "pick_loop randomValue [] selected cumulativeWeight = selected"
| "pick_loop randomValue (c # rest) selected cumulativeWeight =
     (if number c \<in> set selected then pick_loop randomValue rest selected cumulativeWeight
      else let cumulativeWeight = cumulativeWeight + totalScore c
           in if fle randomValue (of_int_js cumulativeWeight) then selected @ [number c]
              else pick_loop randomValue rest selected cumulativeWeight)"

definition pick_step :: "(int \<Rightarrow> jsnum) \<Rightarrow> NumberProbability list \<Rightarrow> nat \<Rightarrow> int list \<Rightarrow> int list" where
  \<comment> \<open>one round \<open>i\<close> of the outer loop, with its fallback\<close>
  "pick_step random topCandidates i selected =
    (let totalWeight = fold (\<lambda>w sum. sum + w) (map totalScore topCandidates) 0;
         randomValue = fmul (random (int i)) (of_int_js totalWeight);
         selected = pick_loop randomValue topCandidates selected 0
     in if length selected = i
        then (case List.find (unselected selected) topCandidates of
                Some candidate \<Rightarrow> selected @ [number candidate]
              | None \<Rightarrow> selected)
        else selected)"

definition selectWeightedRandomNumbers :: "(jsnum \<Rightarrow> jsnum) \<Rightarrow> NumberProbability list \<Rightarrow> int \<Rightarrow> int list" where
  "selectWeightedRandomNumbers msin numberProbs seed =
    (let topCandidates = take 25 numberProbs
     in sort_asc (fold (pick_step (random_of msin 12345 67890 seed) topCandidates) [0..<5] []))"

definition selectWeightedRandomStars :: "(jsnum \<Rightarrow> jsnum) \<Rightarrow> NumberProbability list \<Rightarrow> int \<Rightarrow> int list" where
  "selectWeightedRandomStars msin starProbs seed =
    (let topCandidates = take 6 starProbs
     in sort_asc (fold (pick_step (random_of msin 54321 98760 seed) topCandidates) [0..<2] []))"

definition calculateConfidence :: "jsnum \<Rightarrow> int \<Rightarrow> string" where
  "calculateConfidence score rnk =
    (let confidence = fdiv score (Fin 100);
         confidence = fmul confidence
           (Math_max (fl (5 / 10)) (fsub (Fin 1) (fmul (of_int_js rnk) (fl (5 / 100)))))
     in toFixed2 confidence)"

definition generate_slot :: "(jsnum \<Rightarrow> jsnum) \<Rightarrow> Draw list \<Rightarrow> NumberProbability list \<Rightarrow> NumberProbability list \<Rightarrow> int \<Rightarrow> GeneratedCombination" where
  \<comment> \<open>the body of the generating loop for slot \<open>i\<close>\<close>
  "generate_slot msin draws numberProbs starProbs i =
    (let (nums, strs) =
           (if i = 0 then (selectBestNumbers numberProbs, selectBestStars starProbs)
            else if i = 1 then (selectBalancedNumbers numberProbs, selectBalancedStars starProbs)
            else if i = 2 then (selectPatternNumbers numberProbs, selectBestStars starProbs)
            else (selectWeightedRandomNumbers msin numberProbs i,
                  selectWeightedRandomStars msin starProbs i));
         score = scoreCombination nums strs draws
     in CombinationScore.extend score
          \<lparr>rank = i + 1, confidence = calculateConfidence (probabilityScore score) i\<rparr>)"

definition generateTopCombinations :: "(jsnum \<Rightarrow> jsnum) \<Rightarrow> Draw list \<Rightarrow> int \<Rightarrow> GeneratedCombination list" where
  "generateTopCombinations msin draws cnt =
    (let numCount = min 10 (max 1 cnt);
         numberProbs = getAllNumberProbabilities draws Numbers;
         starProbs = getAllNumberProbabilities draws Stars;
         combinations = map (generate_slot msin draws numberProbs starProbs) [0..numCount - 1]
     in map (\<lambda>(index, combo). combo\<lparr>rank := int index + 1\<rparr>)
          (enumerate 0
             (sort_by (\<lambda>a b. fgt (fsub (probabilityScore b) (probabilityScore a)) (Fin 0))
                combinations)))"


section \<open>hotColdAnalysis.ts\<close>

datatype streak_type = Hot | Cold | Neutral

datatype trend_type = Rising | Falling | Stable

record HotColdNumber =
  number :: int
  appearances :: int
  streakType :: streak_type
  streak :: int
  trend :: trend_type

fun streak_loop :: "int \<Rightarrow> pool \<Rightarrow> Draw list \<Rightarrow> int \<Rightarrow> int \<Rightarrow> int \<times> int" where
  \<comment> \<open>the \<open>for\<close> loop over the draws from index \<open>i\<close>; returns \<open>(streak, lastSeen)\<close>\<close>
  "streak_loop num t [] i strk = (strk, - 1)"
| "streak_loop num t (d # rest) i strk =
     (if num \<in> set (pool_of t d) then (strk, i)
      else streak_loop num t rest (i + 1) (strk + 1))"

definition temperature_of :: "int \<Rightarrow> Draw list \<Rightarrow> pool \<Rightarrow> HotColdNumber" where
  \<comment> \<open>the body of the loop over \<open>num\<close>\<close>
  "temperature_of num draws t =
    (let recentDraws = take 10 draws;
         midDraws = take 20 draws;
         recentCount = int (length (filter (\<lambda>d. num \<in> set (pool_of t d)) recentDraws));
         midCount = int (length (filter (\<lambda>d. num \<in> set (pool_of t d)) midDraws));
         (streak, lastSeen) = streak_loop num t draws 0 0;
         streakType = (if (if t = Numbers then 3 else 4) \<le> recentCount then Hot
                       else if 7 < lastSeen then Cold
                       else Neutral);
         recentRate = fdiv (of_int_js recentCount) (Fin 10);
         midRate = fdiv (of_int_js midCount) (Fin 20);
         trend = (if fgt recentRate (fadd midRate (fl (1 / 10))) then Rising
                  else if flt recentRate (fsub midRate (fl (1 / 10))) then Falling
                  else Stable)
     in \<lparr>number = num, appearances = recentCount, streakType = streakType,
         streak = (if lastSeen = - 1 then int (length draws) else lastSeen),
         trend = trend\<rparr>)"

definition analyzeTemperature :: "int list \<Rightarrow> Draw list \<Rightarrow> pool \<Rightarrow> int \<Rightarrow> HotColdNumber list" where
  \<comment> \<open>the parameter \<open>allNumbers\<close> is never read\<close>
  "analyzeTemperature allNumbers draws t maxNumber =
     sort_by (\<lambda>a b. 0 < appearances b - appearances a)
       (map (\<lambda>num. temperature_of num draws t) [1..maxNumber])"

section \<open>The frequency model\<close>

datatype error = TypeError

record FrequencyData =
  number :: int
  count :: int
  percentage :: jsnum
  lastSeen :: int

text \<open>
  The \<open>Map\<close> from a number to its \<open>{count, lastIndex}\<close> object is an association list in
  insertion order. \<open>frequency.get(num)!\<close> is \<open>undefined\<close> for a key that was never set,
  and the increment of its \<open>count\<close> then throws a \<open>TypeError\<close>.
\<close>

type_synonym freq_map = "(int \<times> int \<times> int) list"

definition count_number :: "int \<Rightarrow> int \<Rightarrow> freq_map \<Rightarrow> error + freq_map" where
  "count_number index num frequency =
    (case map_of frequency num of
       None \<Rightarrow> Inl TypeError
     | Some (c, lastIndex) \<Rightarrow>
         Inr (map (\<lambda>(k, v). if k = num then (k, (c + 1, if lastIndex = - 1 then index else lastIndex))
                              else (k, v)) frequency))"

fun count_numbers :: "int \<Rightarrow> int list \<Rightarrow> freq_map \<Rightarrow> error + freq_map" where
  "count_numbers index [] frequency = Inr frequency"
| "count_numbers index (num # rest) frequency =
     (case count_number index num frequency of
        Inl e \<Rightarrow> Inl e
      | Inr frequency \<Rightarrow> count_numbers index rest frequency)"

fun count_draws :: "int \<Rightarrow> Draw list \<Rightarrow> freq_map \<Rightarrow> error + freq_map" where
  "count_draws index [] frequency = Inr frequency"
| "count_draws index (draw # rest) frequency =
     (case count_numbers index (Draw.numbers draw) frequency of
        Inl e \<Rightarrow> Inl e
      | Inr frequency \<Rightarrow> count_draws (index + 1) rest frequency)"

definition frequency_entry :: "int \<Rightarrow> int \<times> int \<times> int \<Rightarrow> FrequencyData" where
  "frequency_entry tot e =
    (case e of (num, c, lastIndex) \<Rightarrow>
       \<lparr>number = num, count = c,
        percentage = (if 0 < tot then fmul (fdiv (of_int_js c) (of_int_js tot)) (Fin 100)
                      else Fin 0),
        lastSeen = (if lastIndex = - 1 then tot else lastIndex)\<rparr>)"

definition calculateNumberFrequency :: "Draw list \<Rightarrow> error + FrequencyData list" where
  "calculateNumberFrequency draws =
    (case count_draws 0 draws (map (\<lambda>i. (i, 0, - 1)) [1..50]) of
       Inl e \<Rightarrow> Inl e
     | Inr frequency \<Rightarrow>
         Inr (sort_by (\<lambda>a b. 0 < count b - count a)
                (map (frequency_entry (int (length draws))) frequency)))"

section \<open>drawChecker.ts\<close>

record Bet =
  id' :: string
  numbers :: "int list"
  stars :: "int list"

record MatchResult =
  betId :: string
  numbers :: "int list"
  stars :: "int list"
  matchedNumbers :: "int list"
  matchedStars :: "int list"
  numberMatchCount :: nat
  starMatchCount :: nat
  matchCode :: string
  isWinner :: bool
  prize :: string

definition euro :: string where
  "euro = [CHR 0xE2, CHR 0x82, CHR 0xAC]"

definition PRIZE_TIERS :: "(string \<times> string) list" where
  "PRIZE_TIERS =
    [(''5+2'', [CHR 0xF0, CHR 0x9F, CHR 0x8F, CHR 0x86] @ '' JACKPOT!''),
     (''5+1'', euro @ ''300,000+''),
     (''5+0'', euro @ ''50,000+''),
     (''4+2'', euro @ ''3,000+''),
     (''4+1'', euro @ ''150+''),
     (''4+0'', euro @ ''50+''),
     (''3+2'', euro @ ''30+''),
     (''3+1'', euro @ ''12+''),
     (''2+2'', euro @ ''8+''),
     (''3+0'', euro @ ''10+''),
     (''1+2'', euro @ ''7+''),
     (''2+1'', euro @ ''5+'')]"

definition checkBet :: "Bet \<Rightarrow> Draw \<Rightarrow> MatchResult" where
  \<comment> \<open>\<open>PRIZE_TIERS[matchCode] || "No prize"\<close>: every listed prize is a non-empty string, and a
      match code holds a plus sign, so it names no property inherited by the table object\<close>
  "checkBet bet draw =
    (let matchedNumbers = filter (\<lambda>n. n \<in> set (Draw.numbers draw)) (Bet.numbers bet);
         matchedStars = filter (\<lambda>s. s \<in> set (Draw.stars draw)) (Bet.stars bet);
         numberMatchCount = length matchedNumbers;
         starMatchCount = length matchedStars;
         matchCode = show_nat numberMatchCount @ ''+'' @ show_nat starMatchCount;
         prize = (case map_of PRIZE_TIERS matchCode of Some p \<Rightarrow> p | None \<Rightarrow> ''No prize'');
         isWinner = (prize \<noteq> ''No prize'')
     in \<lparr>betId = id' bet, numbers = Bet.numbers bet, stars = Bet.stars bet,
         matchedNumbers = matchedNumbers, matchedStars = matchedStars,
         numberMatchCount = numberMatchCount, starMatchCount = starMatchCount,
         matchCode = matchCode, isWinner = isWinner, prize = prize\<rparr>)"

definition checkAllBets :: "Bet list \<Rightarrow> Draw \<Rightarrow> MatchResult list" where
  "checkAllBets bets draw = map (\<lambda>bet. checkBet bet draw) bets"

definition closeness :: "MatchResult \<Rightarrow> int" where
  \<comment> \<open>\<open>numberMatchCount * 10 + starMatchCount\<close>\<close>
  "closeness r = int (numberMatchCount r) * 10 + int (starMatchCount r)"

definition findClosestBet :: "Bet list \<Rightarrow> Draw \<Rightarrow> MatchResult option" where
  \<comment> \<open>\<open>None\<close> is \<open>null\<close>; the sorted results are not empty when the bets are not\<close>
  "findClosestBet bets draw =
    (if length bets = 0 then None
     else case sort_by (\<lambda>a b. 0 < closeness b - closeness a) (checkAllBets bets draw) of
            r # _ \<Rightarrow> Some r
          | [] \<Rightarrow> None)"

section \<open>Properties of the rounding\<close>


lemma pow2_powi: "pow2 e = 2 powi e"
  by (simp add: pow2_def power_int_def inverse_eq_divide power_one_over)

lemma pow2_pos: "0 < pow2 e"
  by (simp add: pow2_powi)

lemma pow2_add: "pow2 (a + b) = pow2 a * pow2 b"
  by (simp add: pow2_powi power_int_add)

lemma pow2_mono: "a \<le> b \<Longrightarrow> pow2 a \<le> pow2 b"
  by (simp add: pow2_powi power_int_increasing)

lemma pow2_nat: "pow2 (int n) = 2 ^ n"
  by (simp add: pow2_def)

lemma pow2_neg_nat: "pow2 (- int n) = 1 / 2 ^ n"
  by (simp add: pow2_powi power_int_minus inverse_eq_divide)

lemma ilog2_lower: assumes "0 < a" shows "pow2 (ilog2 a) \<le> a"
proof (cases "1 \<le> a")
  case True
  define n where "n = nat \<lfloor>a\<rfloor>"
  have n: "0 < n" using True by (simp add: n_def)
  have "2 ^ (floorlog 2 n - 1) \<le> n" using floorlog_bounds[of n 2] n by simp
  then have "(2::rat) ^ (floorlog 2 n - 1) \<le> of_nat n" 
    by (metis of_nat_le_iff of_nat_numeral of_nat_power)
  also have "\<dots> \<le> a" using True by (simp add: n_def)
  finally have "(2::rat) ^ (floorlog 2 n - 1) \<le> a" .
  moreover have "0 < floorlog 2 n" using n by (simp add: floorlog_def)
  then have "ilog2 a = int (floorlog 2 n - 1)" using True by (simp add: ilog2_def n_def)
  ultimately show ?thesis by (simp add: pow2_nat)
next
  case False
  define m where "m = nat (\<lceil>1 / a\<rceil> - 1)"
  have b: "1 < 1 / a" using False assms by simp
  then have "2 \<le> \<lceil>1 / a\<rceil>" by linarith
  then have m: "0 < m" by (simp add: m_def)
  have "m < 2 ^ floorlog 2 m" using floorlog_bounds[of m 2] m by simp
  then have "m + 1 \<le> 2 ^ floorlog 2 m" by simp
  then have "(of_nat (m + 1) :: rat) \<le> 2 ^ floorlog 2 m"
    by (metis of_nat_le_iff of_nat_numeral of_nat_power)
  moreover have "1 / a \<le> of_nat (m + 1)" using m \<open>2 \<le> \<lceil>1 / a\<rceil>\<close> 
    by (simp add: m_def) linarith
  ultimately have "1 / a \<le> 2 ^ floorlog 2 m" by linarith
  then have "1 / 2 ^ floorlog 2 m \<le> a" using assms
    by (simp add: field_simps)
  moreover have "ilog2 a = - int (floorlog 2 m)" using False by (simp add: ilog2_def m_def)
  ultimately show ?thesis by (simp add: pow2_neg_nat)
qed

lemma ilog2_upper: assumes "0 < a" shows "a < pow2 (ilog2 a + 1)"
proof (cases "1 \<le> a")
  case True
  define n where "n = nat \<lfloor>a\<rfloor>"
  have n: "0 < n" using True by (simp add: n_def)
  have "n < 2 ^ floorlog 2 n" using floorlog_bounds[of n 2] n by simp
  then have "n + 1 \<le> 2 ^ floorlog 2 n" by simp
  then have "(of_nat (n + 1) :: rat) \<le> 2 ^ floorlog 2 n"
    by (metis of_nat_le_iff of_nat_numeral of_nat_power)
  moreover have "a < of_nat (n + 1)" using True by (simp add: n_def) linarith
  ultimately have "a < 2 ^ floorlog 2 n" by linarith
  moreover have "0 < floorlog 2 n" using n by (simp add: floorlog_def)
  then have "ilog2 a + 1 = int (floorlog 2 n)" using True by (simp add: ilog2_def n_def)
  ultimately show ?thesis by (simp add: pow2_nat)
next
  case False
  define m where "m = nat (\<lceil>1 / a\<rceil> - 1)"
  have b: "1 < 1 / a" using False assms by simp
  then have c: "2 \<le> \<lceil>1 / a\<rceil>" by linarith
  then have m: "0 < m" by (simp add: m_def)
  have L: "0 < floorlog 2 m" using m by (simp add: floorlog_def)
  have "2 ^ (floorlog 2 m - 1) \<le> m" using floorlog_bounds[of m 2] m by simp
  then have "(2::rat) ^ (floorlog 2 m - 1) \<le> of_nat m" 
    by (metis of_nat_le_iff of_nat_numeral of_nat_power)
  moreover have "of_nat m < 1 / a" using c by (simp add: m_def) linarith
  ultimately have "2 ^ (floorlog 2 m - 1) < 1 / a" by linarith
  then have "a < 1 / 2 ^ (floorlog 2 m - 1)" using assms by (simp add: field_simps)
  moreover have "ilog2 a + 1 = - int (floorlog 2 m - 1)" using False L by (simp add: ilog2_def m_def)
  ultimately show ?thesis by (simp add: pow2_neg_nat)
qed

lemma ilog2_unique:
  assumes "pow2 e \<le> a" "a < pow2 (e + 1)"
  shows "ilog2 a = e"
proof -
  have a: "0 < a" using assms(1) pow2_pos[of e] by linarith
  have "pow2 e < pow2 (ilog2 a + 1)" using assms(1) ilog2_upper[OF a] by linarith
  then have "e < ilog2 a + 1" using pow2_mono[of "ilog2 a + 1" e] by force
  moreover have "pow2 (ilog2 a) < pow2 (e + 1)" using assms(2) ilog2_lower[OF a] by linarith
  then have "ilog2 a < e + 1" using pow2_mono[of "e + 1" "ilog2 a"] by force
  ultimately show ?thesis by simp
qed


lemma round_even_lower: "x - 1 / 2 \<le> of_int (round_even x)"
  unfolding round_even_def Let_def by (auto; linarith)

lemma round_even_upper: "of_int (round_even x) \<le> x + 1 / 2"
  unfolding round_even_def Let_def by (auto; linarith)

lemma round_even_pos: "1 \<le> x \<Longrightarrow> 1 \<le> round_even x"
  using round_even_lower[of x] by linarith

lemma round_even_nonneg: "0 \<le> x \<Longrightarrow> 0 \<le> round_even x"
  using round_even_lower[of x] by linarith

lemma pow2_overflow: "pow2 1023 \<le> pow2 1024 - pow2 970"
proof -
  have "pow2 1024 = pow2 1023 * pow2 1" using pow2_add[of 1023 1] by simp
  moreover have "pow2 1 = 2" by (simp add: pow2_def)
  moreover have "pow2 970 \<le> pow2 1023" by (rule pow2_mono) simp
  ultimately show ?thesis by simp
qed

lemma fl_eval:
  assumes "pow2 e \<le> x" "x < pow2 (e + 1)" "- 1022 \<le> e" "e \<le> 1022"
  shows "fl x = Fin (of_int (round_even (x / pow2 (e - 52))) * pow2 (e - 52))"
proof -
  have x: "0 < x" using assms(1) pow2_pos[of e] by linarith
  have "x < pow2 1023" using assms(2,4) pow2_mono[of "e + 1" 1023] by simp
  then have "\<not> pow2 1024 - pow2 970 \<le> x" using pow2_overflow by linarith
  moreover have "ilog2 x = e" using assms(1,2) by (rule ilog2_unique)
  ultimately show ?thesis using x assms(3) by (simp add: fl_def Let_def max_def)
qed


lemma fl_cases:
  assumes "pow2 e \<le> x" "x < pow2 (e + 1)" "- 1022 \<le> e" "e \<le> 1022"
    and "round_even (x / pow2 (e - 52)) = m"
  shows "fl x = Fin (of_int m * pow2 (e - 52))"
  using fl_eval[OF assms(1-4)] assms(5) by simp

lemma fl_neg: "fl (- x) = fneg (fl x)"
  by (simp add: fl_def Let_def)

lemma pow2_grid: assumes "- 1074 \<le> k" shows "pow2 k = of_int (2 ^ nat (k + 1074)) * pow2 (- 1074)"
proof -
  have "k = int (nat (k + 1074)) + (- 1074)" using assms by simp
  then have "pow2 k = pow2 (int (nat (k + 1074)) + (- 1074))" by simp
  also have "\<dots> = pow2 (int (nat (k + 1074))) * pow2 (- 1074)" by (rule pow2_add)
  also have "pow2 (int (nat (k + 1074))) = 2 ^ nat (k + 1074)" by (rule pow2_nat)
  finally show ?thesis by simp
qed

lemma fl_on_grid: assumes "fl x = Fin v" shows "on_grid v"
proof (cases "x = 0")
  case True
  then have "v = 0" using assms by (simp add: fl_def)
  then show ?thesis by (auto simp: on_grid_def)
next
  case False
  define e where "e = max (ilog2 \<bar>x\<bar>) (- 1022)"
  define m where "m = round_even (\<bar>x\<bar> / pow2 (e - 52))"
  have v: "v = (if 0 < x then of_int m * pow2 (e - 52) else - (of_int m * pow2 (e - 52)))"
    using assms False by (simp add: fl_def Let_def e_def m_def split: if_splits)
  have "- 1074 \<le> e - 52" by (simp add: e_def)
  from pow2_grid[OF this] obtain k :: int where k: "pow2 (e - 52) = of_int k * pow2 (- 1074)" by blast
  show ?thesis
  proof (cases "0 < x")
    case True
    then have "v = of_int (m * k) * pow2 (- 1074)" using v k by simp
    then show ?thesis unfolding on_grid_def by blast
  next
    case False
    then have "v = of_int (- (m * k)) * pow2 (- 1074)" using v k by simp
    then show ?thesis unfolding on_grid_def by blast
  qed
qed

lemma fl_pos:
  assumes "pow2 (- 1074) \<le> x"
  shows "fl x = PInf \<or> (\<exists>v. fl x = Fin v \<and> 0 < v)"
proof -
  have x: "0 < x" using assms pow2_pos[of "- 1074"] by linarith
  define e where "e = max (ilog2 x) (- 1022)"
  define q where "q = pow2 (e - 52)"
  have q: "0 < q" by (simp add: q_def pow2_pos)
  have "q \<le> x"
  proof (cases "- 1022 \<le> ilog2 x")
    case True
    then have "e = ilog2 x" by (simp add: e_def)
    then have "q \<le> pow2 (ilog2 x)" unfolding q_def by (intro pow2_mono) simp
    then show ?thesis using ilog2_lower[OF x] by linarith
  next
    case False
    then have "e = - 1022" by (simp add: e_def)
    then show ?thesis using assms by (simp add: q_def)
  qed
  then have "1 \<le> x / q" using q by (simp add: field_simps)
  then have "1 \<le> round_even (x / q)" by (rule round_even_pos)
  then have "0 < (of_int (round_even (x / q)) :: rat) * q" using q by simp
  then show ?thesis using x by (auto simp: fl_def Let_def e_def q_def)
qed

lemma fl_nonneg:
  assumes "0 \<le> x" "x < pow2 1023"
  shows "\<exists>v. fl x = Fin v \<and> 0 \<le> v \<and> v \<le> 2 * x"
proof (cases "x = 0")
  case True
  then show ?thesis by (simp add: fl_def)
next
  case False
  then have x: "0 < x" using assms(1) by simp
  define e where "e = max (ilog2 x) (- 1022)"
  define q where "q = pow2 (e - 52)"
  define m where "m = round_even (x / q)"
  have q: "0 < q" by (simp add: q_def pow2_pos)
  have "\<not> pow2 1024 - pow2 970 \<le> x" using assms(2) pow2_overflow by linarith
  then have f: "fl x = Fin (of_int m * q)" using x by (simp add: fl_def Let_def e_def q_def m_def)
  have y: "0 \<le> x / q" using x q by simp
  then have m0: "0 \<le> m" unfolding m_def by (rule round_even_nonneg)
  have "of_int m \<le> 2 * (x / q)"
  proof (cases "1 / 2 \<le> x / q")
    case True
    then show ?thesis using round_even_upper[of "x / q"] by (simp add: m_def)
  next
    case False
    then have "round_even (x / q) < 1" using round_even_upper[of "x / q"] by linarith
    then have "m = 0" using m0 by (simp add: m_def)
    then show ?thesis using y by simp
  qed
  then have "of_int m * q \<le> 2 * x" using q by (simp add: field_simps)
  moreover have "0 \<le> (of_int m :: rat) * q" using m0 q by simp
  ultimately show ?thesis using f by simp
qed

lemma fl_rel_err:
  assumes "pow2 (- 1022) \<le> x" "x < pow2 1023"
  shows "\<exists>v. fl x = Fin v \<and> \<bar>v - x\<bar> \<le> x / 2 ^ 53"
proof -
  have x: "0 < x" using assms(1) pow2_pos[of "- 1022"] by linarith
  have "pow2 (- 1022) < pow2 (ilog2 x + 1)" using assms(1) ilog2_upper[OF x] by linarith
  then have "- 1022 < ilog2 x + 1" using pow2_mono[of "ilog2 x + 1" "- 1022"] by force
  then have e: "max (ilog2 x) (- 1022) = ilog2 x" by simp
  define q where "q = pow2 (ilog2 x - 52)"
  define m where "m = round_even (x / q)"
  have q: "0 < q" by (simp add: q_def pow2_pos)
  have "\<not> pow2 1024 - pow2 970 \<le> x" using assms(2) pow2_overflow by linarith
  then have f: "fl x = Fin (of_int m * q)" using x e by (simp add: fl_def Let_def q_def m_def)
  have "\<bar>of_int m - x / q\<bar> \<le> 1 / 2"
    using round_even_lower[of "x / q"] round_even_upper[of "x / q"] unfolding m_def by linarith
  then have "\<bar>of_int m - x / q\<bar> * q \<le> 1 / 2 * q" using q by (simp only: mult_le_cancel_right) simp
  moreover have "\<bar>of_int m - x / q\<bar> * q = \<bar>of_int m * q - x\<bar>"
  proof -
    have "\<bar>of_int m - x / q\<bar> * q = \<bar>of_int m - x / q\<bar> * \<bar>q\<bar>" using q by simp
    also have "\<dots> = \<bar>(of_int m - x / q) * q\<bar>" by (simp only: abs_mult)
    also have "(of_int m - x / q) * q = of_int m * q - x" using q by (simp add: left_diff_distrib)
    finally show ?thesis .
  qed
  ultimately have err: "\<bar>of_int m * q - x\<bar> \<le> q / 2" by simp
  have "pow2 (ilog2 x) = pow2 (ilog2 x - 52 + 52)" by simp
  also have "\<dots> = q * pow2 52" unfolding q_def by (rule pow2_add)
  also have "pow2 52 = 2 ^ 52" using pow2_nat[of 52] by simp
  finally have "q * 2 ^ 52 \<le> x" using ilog2_lower[OF x] by simp
  then have "q / 2 \<le> x / 2 ^ 53" by (simp add: field_simps)
  then show ?thesis using f err by auto
qed

section \<open>Properties of the scores of a single number\<close>

lemma fl_positive:
  assumes "pow2 (- 1074) \<le> x" "x < pow2 1023"
  shows "\<exists>v. fl x = Fin v \<and> 0 < v"
proof -
  have "0 \<le> x" using assms(1) pow2_pos[of "- 1074"] by linarith
  from fl_nonneg[OF this assms(2)] obtain v where "fl x = Fin v" by blast
  then show ?thesis using fl_pos[OF assms(1)] by auto
qed

lemma pow2_small: "pow2 (- 1074) \<le> 1 / 128" "pow2 (- 1022) \<le> 1 / 128"
  using pow2_mono[of "- 1074" "- 7"] pow2_mono[of "- 1022" "- 7"] by (simp_all add: pow2_def)

lemma pow2_large: "1024 \<le> pow2 1023"
  using pow2_mono[of 10 1023] by (simp add: pow2_def)

lemma fl_literal:
  assumes "1 / 100 \<le> x" "x \<le> 100"
  shows "\<exists>v. fl x = Fin v \<and> 0 < v"
  using assms pow2_small(1) pow2_large by (intro fl_positive) linarith+

lemma frequencyScore_range:
  "calculateFrequencyScore n draws t \<in> {20, 25, 30, 35, 40}"
  by (simp add: calculateFrequencyScore_def Let_def)

lemma hotColdScore_range:
  "calculateHotColdScore n draws t \<in> {15, 20, 22, 25, 30}"
  by (simp add: calculateHotColdScore_def Let_def)

lemma overdueScore_range:
  "calculateOverdueScore n draws t \<in> {2, 5, 7, 10}"
  by (simp add: calculateOverdueScore_def Let_def)

lemma patternScore_numbers: "7 \<le> calculatePatternScore n Numbers" "calculatePatternScore n Numbers \<le> 18"
  by (simp_all add: calculatePatternScore_def Let_def)

lemma patternScore_stars: "calculatePatternScore n Stars = 15"
  by (simp add: calculatePatternScore_def)

lemma patternScore_range: "7 \<le> calculatePatternScore n t" "calculatePatternScore n t \<le> 18"
  using patternScore_numbers[of n] patternScore_stars[of n] by (cases t; simp)+

lemma lastSeen_loop_absent:
  "\<forall>d \<in> set draws. n \<notin> set (pool_of t d) \<Longrightarrow> lastSeen_loop n t draws i = - 1"
  by (induction draws arbitrary: i) auto

lemma winChance_close:
  assumes "1 \<le> k" "k \<le> 100"
  shows "\<exists>w. fmul (fdiv (of_int_js k) (Fin 100)) (Fin 100) = Fin w
           \<and> \<bar>w - of_int k\<bar> \<le> 1 / 10 ^ 13"
proof -
  define x :: rat where "x = of_int k / 100"
  have k: "(1::rat) \<le> of_int k" "(of_int k :: rat) \<le> 100" using assms by linarith+
  have x: "1 / 100 \<le> x" "x \<le> 1" using k by (simp_all add: x_def)
  have "pow2 (- 1022) \<le> x" "x < pow2 1023" using x pow2_small(2) pow2_large by linarith+
  from fl_rel_err[OF this] obtain v where v: "fl x = Fin v" "\<bar>v - x\<bar> \<le> x / 2 ^ 53" by blast
  have vb: "x - x / 2 ^ 53 \<le> v" "v \<le> x + x / 2 ^ 53" using v(2) by linarith+
  have v1: "1 / 128 \<le> v" "v \<le> 2" using vb x by (simp_all add: field_simps) 
  define y where "y = v * 100"
  have "pow2 (- 1022) \<le> y" "y < pow2 1023" using v1 pow2_small(2) pow2_large unfolding y_def by linarith+
  from fl_rel_err[OF this] obtain w where w: "fl y = Fin w" "\<bar>w - y\<bar> \<le> y / 2 ^ 53" by blast
  have "fmul (fdiv (of_int_js k) (Fin 100)) (Fin 100) = Fin w"
    using v(1) w(1) by (simp add: of_int_js_def x_def y_def)
  moreover have "\<bar>w - of_int k\<bar> \<le> 1 / 10 ^ 13"
  proof -
    have xk: "of_int k = x * 100" by (simp add: x_def)
    have "\<bar>y - x * 100\<bar> = \<bar>v - x\<bar> * 100" unfolding y_def by (simp add: abs_if)
    then have a: "\<bar>y - x * 100\<bar> \<le> 100 / 2 ^ 53" using v(2) x(2) by (simp add: field_simps)
    have "y \<le> 200" using v1 by (simp add: y_def)
    then have b: "\<bar>w - y\<bar> \<le> 200 / 2 ^ 53" using w(2) by (simp add: field_simps)
    have "\<bar>w - x * 100\<bar> \<le> \<bar>w - y\<bar> + \<bar>y - x * 100\<bar>" by linarith
    then have "\<bar>w - x * 100\<bar> \<le> 300 / 2 ^ 53" using a b by linarith
    then show ?thesis unfolding xk by simp
  qed
  ultimately show ?thesis by blast
qed

lemma frequencyScore_empty: "calculateFrequencyScore n [] t = 20"
proof -
  obtain a where a: "fl (5 / 50) = Fin a" using fl_literal[of "5 / 50"] by auto
  obtain b where b: "fl (2 / 12) = Fin b" using fl_literal[of "2 / 12"] by auto
  obtain c6 where c6: "fl (6 / 10) = Fin c6" "0 < c6" using fl_literal[of "6 / 10"] by auto
  obtain c8 where c8: "fl (8 / 10) = Fin c8" "0 < c8" using fl_literal[of "8 / 10"] by auto
  obtain c12 where c12: "fl (12 / 10) = Fin c12" "0 < c12" using fl_literal[of "12 / 10"] by auto
  obtain c15 where c15: "fl (15 / 10) = Fin c15" "0 < c15" using fl_literal[of "15 / 10"] by auto
  have z: "fl 0 = Fin 0" by (simp add: fl_def)
  show ?thesis
    using a b c6 c8 c12 c15 z
    by (simp add: calculateFrequencyScore_def Let_def of_int_js_def fgt_def fge_def fle_def)
qed

lemma hotColdScore_empty: "calculateHotColdScore n [] t = 15"
  by (simp add: calculateHotColdScore_def Let_def count_includes_def)

lemma fl_57: "fl (57 / 100) = Fin (5134103575202365 / 9007199254740992)"
proof -
  have "round_even (57 / 100 / pow2 (- 1 - 52)) = 5134103575202365" by code_simp
  from fl_cases[OF _ _ _ _ this] show ?thesis by (simp add: pow2_def)
qed

lemma fl_57_100:
  "fl (5134103575202365 / 9007199254740992 * 100) = Fin (8022036836253695 / 140737488355328)"
proof -
  have "round_even (5134103575202365 / 9007199254740992 * 100 / pow2 (5 - 52)) = 8022036836253695"
    by code_simp
  from fl_cases[OF _ _ _ _ this] show ?thesis by (simp add: pow2_def)
qed

lemma probability_20_empty:
  "calculateNumberProbability 20 [] Numbers =
     \<lparr>NumberProbability.number = 20, NumberProbability.frequencyScore = 20,
      NumberProbability.hotColdScore = 15, NumberProbability.patternScore = 12,
      NumberProbability.overdueScore = 10, totalScore = 57,
      NumberProbability.winChance = Fin (8022036836253695 / 140737488355328)\<rparr>"
  using fl_57 fl_57_100
  by (simp add: calculateNumberProbability_def Let_def frequencyScore_empty hotColdScore_empty
      calculatePatternScore_def calculateOverdueScore_def of_int_js_def signed_modulo_int_def)

lemma score_bounds:
  "20 \<le> calculateFrequencyScore n draws t" "calculateFrequencyScore n draws t \<le> 40"
  "15 \<le> calculateHotColdScore n draws t" "calculateHotColdScore n draws t \<le> 30"
  "2 \<le> calculateOverdueScore n draws t" "calculateOverdueScore n draws t \<le> 10"
  using frequencyScore_range[of n draws t] hotColdScore_range[of n draws t]
    overdueScore_range[of n draws t] by auto

text \<open>
  C8. Whatever the pool and the history, the empty one included, a number that no draw of
  the history contains gets the overdue sub-score 10.
\<close>

theorem overdue_absent_is_10:
  "\<forall>d \<in> set draws. n \<notin> set (pool_of t d) \<Longrightarrow> calculateOverdueScore n draws t = 10"
  by (simp add: calculateOverdueScore_def Let_def lastSeen_loop_absent)

theorem overdue_absent_is_10_witness:
  "calculateOverdueScore 7 [\<lparr>date = ''2024-01-05'', Draw.numbers = [1, 2, 3, 4, 5], Draw.stars = [1, 2]\<rparr>] Numbers = 10
   \<and> calculateOverdueScore 7 [] Stars = 10"
  using overdue_absent_is_10[of "[\<lparr>date = ''2024-01-05'', Draw.numbers = [1, 2, 3, 4, 5], Draw.stars = [1, 2]\<rparr>]" 7 Numbers]
    overdue_absent_is_10[of "[]" 7 Stars]
  by (simp add: pool_of_def)

text \<open>
  C10. The total score of a number never reaches 100: it is at most 98 in the numbers
  pool, where the pattern sub-score is at most 18, and at most 95 in the stars pool,
  where the pattern sub-score is 15.
\<close>

theorem totalScore_below_100:
  "NumberProbability.patternScore (calculateNumberProbability n draws Numbers) \<le> 18
   \<and> totalScore (calculateNumberProbability n draws Numbers) \<le> 98
   \<and> NumberProbability.patternScore (calculateNumberProbability n draws Stars) = 15
   \<and> totalScore (calculateNumberProbability n draws Stars) \<le> 95"
  using score_bounds[of n draws Numbers] score_bounds[of n draws Stars]
    patternScore_numbers(2)[of n] patternScore_stars[of n]
  by (simp add: calculateNumberProbability_def Let_def)

theorem totalScore_below_100_witness:
  "totalScore (calculateNumberProbability 17 [] Numbers) \<le> 98
   \<and> totalScore (calculateNumberProbability 3 [] Stars) \<le> 95"
  using totalScore_below_100[of 17 "[]"] totalScore_below_100[of 3 "[]"] by simp

text \<open>
  C4, as the code has it. For every number, pool and history the four sub-scores lie in
  [0,40], [0,30], [0,20] and [0,10], the total score is their sum and at most 100, and
  the win chance is \<open>(totalScore / 100) * 100\<close> in double arithmetic: a finite number
  within \<open>10^-13\<close> of the total score.
\<close>

theorem number_probability_ranges:
  "(let p = calculateNumberProbability n draws t in
     0 \<le> NumberProbability.frequencyScore p \<and> NumberProbability.frequencyScore p \<le> 40
     \<and> 0 \<le> NumberProbability.hotColdScore p \<and> NumberProbability.hotColdScore p \<le> 30
     \<and> 0 \<le> NumberProbability.patternScore p \<and> NumberProbability.patternScore p \<le> 20
     \<and> 0 \<le> NumberProbability.overdueScore p \<and> NumberProbability.overdueScore p \<le> 10
     \<and> totalScore p = NumberProbability.frequencyScore p + NumberProbability.hotColdScore p
          + NumberProbability.patternScore p + NumberProbability.overdueScore p
     \<and> totalScore p \<le> 100
     \<and> NumberProbability.winChance p = fmul (fdiv (of_int_js (totalScore p)) (Fin 100)) (Fin 100)
     \<and> (\<exists>w. NumberProbability.winChance p = Fin w \<and> \<bar>w - of_int (totalScore p)\<bar> \<le> 1 / 10 ^ 13))"
proof -
  define fs hs ps os where "fs = calculateFrequencyScore n draws t"
    and "hs = calculateHotColdScore n draws t"
    and "ps = calculatePatternScore n t"
    and "os = calculateOverdueScore n draws t"
  have r: "20 \<le> fs" "fs \<le> 40" "15 \<le> hs" "hs \<le> 30" "7 \<le> ps" "ps \<le> 18" "2 \<le> os" "os \<le> 10"
    using score_bounds[of n draws t] patternScore_range[of n t]
    unfolding fs_def hs_def ps_def os_def by simp_all
  then have "1 \<le> fs + hs + ps + os" "fs + hs + ps + os \<le> 100" by linarith+
  from winChance_close[OF this] r show ?thesis
    by (simp add: calculateNumberProbability_def Let_def fs_def hs_def ps_def os_def)
qed

theorem number_probability_ranges_witness:
  "totalScore (calculateNumberProbability 20 [] Numbers) \<le> 100
   \<and> (\<exists>w. NumberProbability.winChance (calculateNumberProbability 20 [] Numbers) = Fin w
          \<and> \<bar>w - of_int (totalScore (calculateNumberProbability 20 [] Numbers))\<bar> \<le> 1 / 10 ^ 13)"
  using number_probability_ranges[of 20 "[]" Numbers] unfolding Let_def by blast

text \<open>
  The win chance is not always the total score itself. Number 20 on the empty history
  has the total score 57; 57 / 100 rounds to a double just below 0.57, and its product
  with 100 rounds to 56.99999999999999 (that is \<open>8022036836253695 / 2^47\<close>).
\<close>

theorem winChance_differs_from_totalScore:
  "totalScore (calculateNumberProbability 20 [] Numbers) = 57
   \<and> NumberProbability.winChance (calculateNumberProbability 20 [] Numbers)
       = Fin (8022036836253695 / 140737488355328)
   \<and> NumberProbability.winChance (calculateNumberProbability 20 [] Numbers)
       \<noteq> of_int_js (totalScore (calculateNumberProbability 20 [] Numbers))"
  by (simp add: probability_20_empty of_int_js_def)

section \<open>Properties of the sorting\<close>

lemma mset_insert_by: "mset (insert_by gt x ys) = add_mset x (mset ys)"
  by (induction ys) simp_all

lemma mset_sort_by: "mset (sort_by gt xs) = mset xs"
  by (induction xs) (simp_all add: sort_by_def mset_insert_by)

lemma set_sort_by: "set (sort_by gt xs) = set xs"
  using mset_sort_by[of gt xs] by (metis set_mset_mset)

lemma length_sort_by: "length (sort_by gt xs) = length xs"
  using mset_sort_by[of gt xs] by (metis size_mset)

lemma distinct_sort_by: "distinct (sort_by gt xs) = distinct xs"
  using mset_sort_by[of gt xs] by (metis mset_eq_imp_distinct_iff)

lemma mset_map_sort_by: "mset (map f (sort_by gt xs)) = mset (map f xs)"
  using mset_sort_by[of gt xs] by (metis mset_map)

lemma distinct_map_sort_by: "distinct (map f (sort_by gt xs)) = distinct (map f xs)"
  using mset_map_sort_by[of f gt xs] by (metis mset_eq_imp_distinct_iff)

lemma insert_by_insort_key:
  assumes "\<And>y. y \<in> set ys \<Longrightarrow> gt x y = (r y < r x)"
  shows "insert_by gt x ys = insort_key r x ys"
  using assms by (induction ys) (auto simp: not_less)

lemma sort_by_sort_key:
  fixes r :: "'a \<Rightarrow> 'b::linorder"
  assumes "\<And>a b. a \<in> set xs \<Longrightarrow> b \<in> set xs \<Longrightarrow> gt a b = (r b < r a)"
  shows "sort_by gt xs = sort_key r xs"
  using assms
proof (induction xs)
  case Nil
  then show ?case by (simp add: sort_by_def)
next
  case (Cons x xs)
  have ih: "sort_by gt xs = sort_key r xs" using Cons by simp
  have "insert_by gt x (sort_by gt xs) = insort_key r x (sort_by gt xs)"
    by (rule insert_by_insort_key) (simp add: set_sort_by Cons.prems)
  then show ?case using ih by (simp add: sort_by_def)
qed

lemma sort_by_descending:
  fixes k :: "'a \<Rightarrow> int"
  shows "sort_by (\<lambda>a b. 0 < k b - k a) xs = sort_key (\<lambda>a. - k a) xs"
  by (rule sort_by_sort_key) auto

lemma sort_asc_sort: "sort_asc xs = sort xs"
  unfolding sort_asc_def by (rule sort_by_sort_key) auto

lemma sorted_descending:
  fixes k :: "'a \<Rightarrow> int"
  shows "sorted_wrt (\<lambda>a b. k b \<le> k a) (sort_by (\<lambda>a b. 0 < k b - k a) xs)"
proof -
  have "sorted (map (\<lambda>a. - k a) (sort_key (\<lambda>a. - k a) xs))" by (rule sorted_sort_key)
  then show ?thesis unfolding sort_by_descending by (simp add: sorted_map)
qed

section \<open>Properties of the draw checker\<close>

lemma prize_keys_distinct: "distinct (map fst PRIZE_TIERS)"
  by (simp add: PRIZE_TIERS_def)

lemma prize_never_default: "(k, p) \<in> set PRIZE_TIERS \<Longrightarrow> p \<noteq> ''No prize''"
  by (auto simp: PRIZE_TIERS_def euro_def)

text \<open>
  C6. For every bet and draw, the matched numbers and stars are the bet's selections that
  the draw contains, the match code is the two counts joined by a plus sign, a match code
  among the twelve of the prize table gets that prize and is a winner, and any other match
  code gets "No prize" and is no winner. No branch of the function throws.
\<close>

theorem checkBet_result:
  "(let r = checkBet bet draw in
     matchedNumbers r = filter (\<lambda>n. n \<in> set (Draw.numbers draw)) (Bet.numbers bet)
     \<and> set (matchedNumbers r) = set (Bet.numbers bet) \<inter> set (Draw.numbers draw)
     \<and> matchedStars r = filter (\<lambda>s. s \<in> set (Draw.stars draw)) (Bet.stars bet)
     \<and> set (matchedStars r) = set (Bet.stars bet) \<inter> set (Draw.stars draw)
     \<and> numberMatchCount r = length (matchedNumbers r)
     \<and> starMatchCount r = length (matchedStars r)
     \<and> matchCode r = show_nat (numberMatchCount r) @ ''+'' @ show_nat (starMatchCount r)
     \<and> length PRIZE_TIERS = 12 \<and> distinct (map fst PRIZE_TIERS)
     \<and> (\<forall>p. (matchCode r, p) \<in> set PRIZE_TIERS \<longrightarrow> prize r = p \<and> isWinner r)
     \<and> (matchCode r \<notin> fst ` set PRIZE_TIERS \<longrightarrow> prize r = ''No prize'' \<and> \<not> isWinner r))"
proof -
  define code where "code = matchCode (checkBet bet draw)"
  have listed: "prize (checkBet bet draw) = p \<and> isWinner (checkBet bet draw)"
    if "(code, p) \<in> set PRIZE_TIERS" for p
  proof -
    have "map_of PRIZE_TIERS code = Some p" using that prize_keys_distinct by simp
    then show ?thesis using prize_never_default[OF that]
      by (simp add: checkBet_def Let_def code_def)
  qed
  have unlisted: "prize (checkBet bet draw) = ''No prize'' \<and> \<not> isWinner (checkBet bet draw)"
    if "code \<notin> fst ` set PRIZE_TIERS"
  proof -
    have "map_of PRIZE_TIERS code = None" using that by (simp add: map_of_eq_None_iff)
    then show ?thesis by (simp add: checkBet_def Let_def code_def)
  qed
  have "length PRIZE_TIERS = 12" by (simp add: PRIZE_TIERS_def)
  moreover have "set (matchedNumbers (checkBet bet draw)) = set (Bet.numbers bet) \<inter> set (Draw.numbers draw)"
    by (auto simp: checkBet_def Let_def)
  moreover have "set (matchedStars (checkBet bet draw)) = set (Bet.stars bet) \<inter> set (Draw.stars draw)"
    by (auto simp: checkBet_def Let_def)
  moreover have "matchedNumbers (checkBet bet draw) = filter (\<lambda>n. n \<in> set (Draw.numbers draw)) (Bet.numbers bet)"
    "matchedStars (checkBet bet draw) = filter (\<lambda>s. s \<in> set (Draw.stars draw)) (Bet.stars bet)"
    "numberMatchCount (checkBet bet draw) = length (matchedNumbers (checkBet bet draw))"
    "starMatchCount (checkBet bet draw) = length (matchedStars (checkBet bet draw))"
    "matchCode (checkBet bet draw) = show_nat (numberMatchCount (checkBet bet draw)) @ ''+''
        @ show_nat (starMatchCount (checkBet bet draw))"
    by (simp_all add: checkBet_def Let_def)
  ultimately show ?thesis
    using listed unlisted prize_keys_distinct unfolding Let_def code_def by blast
qed

theorem checkBet_result_witness:
  "matchCode (checkBet \<lparr>id' = ''a'', Bet.numbers = [1, 2, 3, 4, 5], Bet.stars = [1, 2]\<rparr>
       \<lparr>date = ''2024-01-05'', Draw.numbers = [1, 2, 30, 50, 49], Draw.stars = [3, 4]\<rparr>) = ''2+0''
   \<and> prize (checkBet \<lparr>id' = ''a'', Bet.numbers = [1, 2, 3, 4, 5], Bet.stars = [1, 2]\<rparr>
       \<lparr>date = ''2024-01-05'', Draw.numbers = [1, 2, 30, 50, 49], Draw.stars = [3, 4]\<rparr>) = ''No prize''
   \<and> \<not> isWinner (checkBet \<lparr>id' = ''a'', Bet.numbers = [1, 2, 3, 4, 5], Bet.stars = [1, 2]\<rparr>
       \<lparr>date = ''2024-01-05'', Draw.numbers = [1, 2, 30, 50, 49], Draw.stars = [3, 4]\<rparr>)"
proof -
  define bet where "bet = \<lparr>id' = ''a'', Bet.numbers = [1, 2, 3, 4, 5], Bet.stars = [1, 2]\<rparr>"
  define draw where "draw = \<lparr>date = ''2024-01-05'', Draw.numbers = [1, 2, 30, 50, 49], Draw.stars = [3, 4]\<rparr>"
  have c: "matchCode (checkBet bet draw) = ''2+0''"
    by (simp add: checkBet_def Let_def bet_def draw_def digit_char_def)
  then have "matchCode (checkBet bet draw) \<notin> fst ` set PRIZE_TIERS"
    by (simp add: PRIZE_TIERS_def)
  then show ?thesis using checkBet_result[of bet draw] c unfolding Let_def bet_def draw_def by blast
qed

lemma sort_by_head_max:
  fixes k :: "'a \<Rightarrow> int"
  assumes "sort_by (\<lambda>a b. 0 < k b - k a) xs = y # ys"
  shows "y \<in> set xs \<and> (\<forall>z \<in> set xs. k z \<le> k y)"
proof -
  have s: "set (y # ys) = set xs" using assms set_sort_by by metis
  have "sorted_wrt (\<lambda>a b. k b \<le> k a) (y # ys)" using sorted_descending[of k xs] assms by simp
  then have "\<forall>z \<in> set ys. k z \<le> k y" by simp
  then show ?thesis using s by auto
qed

text \<open>
  C7. findClosestBet returns null exactly for the empty list of bets; otherwise it returns
  the result of one of the bets, whose value numberMatchCount * 10 + starMatchCount is the
  largest among the results of all the bets.
\<close>

theorem findClosestBet_maximal:
  "(findClosestBet bets draw = None \<longleftrightarrow> bets = [])
   \<and> (bets \<noteq> [] \<longrightarrow>
        (\<exists>r. findClosestBet bets draw = Some r \<and> r \<in> set (checkAllBets bets draw)
             \<and> (\<forall>r' \<in> set (checkAllBets bets draw). closeness r' \<le> closeness r)))"
proof (cases "bets = []")
  case True
  then show ?thesis by (simp add: findClosestBet_def)
next
  case False
  define rs where "rs = sort_by (\<lambda>a b. 0 < closeness b - closeness a) (checkAllBets bets draw)"
  have "length rs = length bets" by (simp add: rs_def length_sort_by checkAllBets_def)
  then obtain r rest where rs: "rs = r # rest" using False by (cases rs) auto
  then have f: "findClosestBet bets draw = Some r" using False by (simp add: findClosestBet_def rs_def)
  from sort_by_head_max[OF rs[unfolded rs_def]] f False show ?thesis by simp
qed

theorem findClosestBet_maximal_witness:
  "findClosestBet
     [\<lparr>id' = ''a'', Bet.numbers = [1, 2, 3, 10, 11], Bet.stars = [1, 2]\<rparr>,
      \<lparr>id' = ''b'', Bet.numbers = [1, 2, 3, 4, 12], Bet.stars = [5, 6]\<rparr>]
     \<lparr>date = ''2024-01-05'', Draw.numbers = [1, 2, 3, 4, 5], Draw.stars = [1, 2]\<rparr>
   = Some (checkBet \<lparr>id' = ''b'', Bet.numbers = [1, 2, 3, 4, 12], Bet.stars = [5, 6]\<rparr>
             \<lparr>date = ''2024-01-05'', Draw.numbers = [1, 2, 3, 4, 5], Draw.stars = [1, 2]\<rparr>)"
proof -
  define a where "a = \<lparr>id' = ''a'', Bet.numbers = [1, 2, 3, 10, 11], Bet.stars = [1, 2]\<rparr>"
  define b where "b = \<lparr>id' = ''b'', Bet.numbers = [1, 2, 3, 4, 12], Bet.stars = [5, 6]\<rparr>"
  define d where "d = \<lparr>date = ''2024-01-05'', Draw.numbers = [1, 2, 3, 4, 5], Draw.stars = [1, 2]\<rparr>"
  have ca: "closeness (checkBet a d) = 32" and cb: "closeness (checkBet b d) = 40"
    by (simp_all add: closeness_def checkBet_def Let_def a_def b_def d_def)
  have all: "set (checkAllBets [a, b] d) = {checkBet a d, checkBet b d}"
    by (simp add: checkAllBets_def)
  from findClosestBet_maximal[of "[a, b]" d] obtain r where r: "findClosestBet [a, b] d = Some r"
    "r \<in> set (checkAllBets [a, b] d)" "\<forall>r' \<in> set (checkAllBets [a, b] d). closeness r' \<le> closeness r"
    by auto
  have "closeness (checkBet b d) \<le> closeness r" using r(3) all by simp
  then have "r \<noteq> checkBet a d" using ca cb by auto
  then have "r = checkBet b d" using r(2) all by simp
  then show ?thesis using r(1) unfolding a_def b_def d_def by simp
qed

section \<open>Properties of the scores of a combination\<close>

text \<open>
  C1. With no numbers and no stars the averaging divides zero by zero: the returned
  probabilityScore is NaN, not 0, the win chance reads "NaN%", and every entry of the
  breakdown is NaN, whatever the history.
\<close>

theorem scoreCombination_empty_is_NaN:
  "probabilityScore (scoreCombination [] [] draws) = NaN
   \<and> probabilityScore (scoreCombination [] [] draws) \<noteq> Fin 0
   \<and> CombinationScore.winChance (scoreCombination [] [] draws) = ''NaN%''
   \<and> breakdown (scoreCombination [] [] draws)
       = \<lparr>frequencyScore = NaN, hotColdScore = NaN, patternScore = NaN, overdueScore = NaN\<rparr>"
  by (simp add: scoreCombination_def Let_def of_int_js_def inf_of_sign_def Math_min_def round1_def)

lemma add_scores_commute:
  "add_scores t draws x (add_scores t draws y tot) = add_scores t draws y (add_scores t draws x tot)"
  by (cases tot) (simp add: add_scores_def Let_def)

lemma fold_add_scores_perm:
  assumes "mset xs = mset ys"
  shows "fold (add_scores t draws) xs tot = fold (add_scores t draws) ys tot"
proof -
  have "fold (add_scores t draws) xs = fold (add_scores t draws) ys"
    by (rule fold_multiset_equiv) (auto simp: fun_eq_iff add_scores_commute assms)
  then show ?thesis by simp
qed

lemma length_filter_perm:
  assumes "mset xs = mset ys"
  shows "length (filter P xs) = length (filter P ys)"
proof -
  have "mset (filter P xs) = mset (filter P ys)" using assms by (simp only: mset_filter)
  then show ?thesis by (metis size_mset)
qed

text \<open>
  C3, as the code has it. scoreCombination does not sort its arguments: the numbers and
  stars fields of the result are the arrays as supplied. For every history, permuting the
  numbers and permuting the stars leaves the probabilityScore, the winChance and the
  breakdown unchanged.
\<close>

theorem scoreCombination_permutation:
  assumes "mset nums = mset nums'" and "mset strs = mset strs'"
  shows "probabilityScore (scoreCombination nums strs draws)
           = probabilityScore (scoreCombination nums' strs' draws)
         \<and> CombinationScore.winChance (scoreCombination nums strs draws)
           = CombinationScore.winChance (scoreCombination nums' strs' draws)
         \<and> breakdown (scoreCombination nums strs draws)
           = breakdown (scoreCombination nums' strs' draws)
         \<and> CombinationScore.numbers (scoreCombination nums strs draws) = nums
         \<and> CombinationScore.stars (scoreCombination nums strs draws) = strs
         \<and> CombinationScore.numbers (scoreCombination nums' strs' draws) = nums'
         \<and> CombinationScore.stars (scoreCombination nums' strs' draws) = strs'"
proof -
  have l: "length nums = length nums'" "length strs = length strs'"
    using assms by (metis size_mset)+
  have f: "fold (add_scores Stars draws) strs (fold (add_scores Numbers draws) nums (0, 0, 0, 0))
         = fold (add_scores Stars draws) strs' (fold (add_scores Numbers draws) nums' (0, 0, 0, 0))"
    using fold_add_scores_perm[OF assms(1)] fold_add_scores_perm[OF assms(2)] by simp
  have e: "length (filter (\<lambda>n. n smod 2 = 0) nums) = length (filter (\<lambda>n. n smod 2 = 0) nums')"
    "length (filter (\<lambda>n. n \<le> 25) nums) = length (filter (\<lambda>n. n \<le> 25) nums')"
    using assms(1) by (rule length_filter_perm)+
  show ?thesis
    unfolding scoreCombination_def f l e by (simp add: Let_def split: prod.splits)
qed

theorem scoreCombination_permutation_witness:
  "probabilityScore (scoreCombination [7, 3, 41, 18, 26] [9, 2] [])
     = probabilityScore (scoreCombination [3, 7, 18, 26, 41] [2, 9] [])
   \<and> CombinationScore.numbers (scoreCombination [7, 3, 41, 18, 26] [9, 2] []) = [7, 3, 41, 18, 26]"
  using scoreCombination_permutation[of "[7, 3, 41, 18, 26]" "[3, 7, 18, 26, 41]" "[9, 2]" "[2, 9]" "[]"]
  by simp

text \<open>
  The arrays come back in the order they were supplied: a combination given in
  descending order is returned in descending order, and differs from the result for the
  same combination given in ascending order.
\<close>

theorem scoreCombination_keeps_order:
  "CombinationScore.numbers (scoreCombination [50, 41, 27, 13, 2] [9, 4] []) = [50, 41, 27, 13, 2]
   \<and> \<not> sorted (CombinationScore.numbers (scoreCombination [50, 41, 27, 13, 2] [9, 4] []))
   \<and> CombinationScore.stars (scoreCombination [50, 41, 27, 13, 2] [9, 4] []) = [9, 4]
   \<and> scoreCombination [50, 41, 27, 13, 2] [9, 4] [] \<noteq> scoreCombination [2, 13, 27, 41, 50] [4, 9] []"
proof -
  have a: "CombinationScore.numbers (scoreCombination [50, 41, 27, 13, 2] [9, 4] []) = [50, 41, 27, 13, 2]"
    and b: "CombinationScore.numbers (scoreCombination [2, 13, 27, 41, 50] [4, 9] []) = [2, 13, 27, 41, 50]"
    and c: "CombinationScore.stars (scoreCombination [50, 41, 27, 13, 2] [9, 4] []) = [9, 4]"
    by (simp_all add: scoreCombination_def Let_def split: prod.splits)
  from a b have "scoreCombination [50, 41, 27, 13, 2] [9, 4] [] \<noteq> scoreCombination [2, 13, 27, 41, 50] [4, 9] []"
    by auto
  then show ?thesis using a c by simp
qed

section \<open>Properties of the hot and cold analysis\<close>

lemma streak_loop_absent:
  "\<forall>d \<in> set draws. n \<notin> set (pool_of t d) \<Longrightarrow>
     streak_loop n t draws i s = (s + int (length draws), - 1)"
  by (induction draws arbitrary: i s) auto

lemma never_seen_neutral:
  assumes "\<forall>d \<in> set draws. n \<notin> set (pool_of t d)"
  shows "streakType (temperature_of n draws t) = Neutral"
    and "streak (temperature_of n draws t) = int (length draws)"
proof -
  have "filter (\<lambda>d. n \<in> set (pool_of t d)) (take 10 draws) = []"
    using assms by (auto simp: filter_empty_conv dest: in_set_takeD)
  then show "streakType (temperature_of n draws t) = Neutral"
    "streak (temperature_of n draws t) = int (length draws)"
    by (simp_all add: temperature_of_def Let_def streak_loop_absent[OF assms])
qed

text \<open>
  C2. In a history of eight draws that never contain the number 1, the number of draws
  since its last appearance is reported as 8, which exceeds 7, and the number is below the
  hot threshold; the classification is nevertheless neutral, not cold.
\<close>

theorem absent_number_is_neutral:
  "temperature_of 1 (replicate 8 \<lparr>date = ''2024-01-05'', Draw.numbers = [2, 3, 4, 5, 6], Draw.stars = [1, 2]\<rparr>) Numbers
     \<in> set (analyzeTemperature [] (replicate 8 \<lparr>date = ''2024-01-05'', Draw.numbers = [2, 3, 4, 5, 6], Draw.stars = [1, 2]\<rparr>) Numbers 50)
   \<and> HotColdNumber.number (temperature_of 1 (replicate 8 \<lparr>date = ''2024-01-05'', Draw.numbers = [2, 3, 4, 5, 6], Draw.stars = [1, 2]\<rparr>) Numbers) = 1
   \<and> appearances (temperature_of 1 (replicate 8 \<lparr>date = ''2024-01-05'', Draw.numbers = [2, 3, 4, 5, 6], Draw.stars = [1, 2]\<rparr>) Numbers) = 0
   \<and> streak (temperature_of 1 (replicate 8 \<lparr>date = ''2024-01-05'', Draw.numbers = [2, 3, 4, 5, 6], Draw.stars = [1, 2]\<rparr>) Numbers) = 8
   \<and> streakType (temperature_of 1 (replicate 8 \<lparr>date = ''2024-01-05'', Draw.numbers = [2, 3, 4, 5, 6], Draw.stars = [1, 2]\<rparr>) Numbers) = Neutral"
proof -
  define draws where "draws = replicate 8 \<lparr>date = ''2024-01-05'', Draw.numbers = [2, 3, 4, 5, 6], Draw.stars = [1, 2]\<rparr>"
  have absent: "\<forall>d \<in> set draws. (1::int) \<notin> set (pool_of Numbers d)"
    by (simp add: draws_def pool_of_def)
  have "temperature_of 1 draws Numbers \<in> set (analyzeTemperature [] draws Numbers 50)"
    by (simp add: analyzeTemperature_def set_sort_by)
  moreover have "HotColdNumber.number (temperature_of 1 draws Numbers) = 1"
    by (simp add: temperature_of_def Let_def split: prod.splits)
  moreover have "appearances (temperature_of 1 draws Numbers) = 0"
    using absent by (simp add: temperature_of_def Let_def filter_empty_conv split: prod.splits)
      (auto dest: in_set_takeD)
  moreover have "streak (temperature_of 1 draws Numbers) = 8"
    using never_seen_neutral(2)[OF absent] by (simp add: draws_def)
  ultimately show ?thesis using never_seen_neutral(1)[OF absent] unfolding draws_def by simp
qed

section \<open>Properties of the frequency model\<close>

lemma count_number_map:
  assumes "distinct (map fst frequency)" "num \<in> fst ` set frequency"
  shows "count_number index num frequency =
           Inr (map (\<lambda>(k, c, li). if k = num then (k, c + 1, if li = - 1 then index else li)
                                     else (k, c, li)) frequency)"
proof -
  from assms(2) obtain c0 li0 where m: "(num, c0, li0) \<in> set frequency" by auto
  then have look: "map_of frequency num = Some (c0, li0)" using assms(1) by simp
  have "map (\<lambda>(k, v). if k = num then (k, (c0 + 1, if li0 = - 1 then index else li0)) else (k, v)) frequency
      = map (\<lambda>(k, c, li). if k = num then (k, c + 1, if li = - 1 then index else li) else (k, c, li)) frequency"
  proof (rule map_cong[OF refl])
    fix e assume e: "e \<in> set frequency"
    obtain k c li where ek: "e = (k, c, li)" by (cases e) auto
    have "k = num \<Longrightarrow> c = c0 \<and> li = li0"
      using e m assms(1) ek by (metis Pair_inject eq_key_imp_eq_value)
    then show "(case e of (k, v) \<Rightarrow> if k = num then (k, (c0 + 1, if li0 = - 1 then index else li0)) else (k, v))
             = (case e of (k, c, li) \<Rightarrow> if k = num then (k, c + 1, if li = - 1 then index else li) else (k, c, li))"
      by (auto simp: ek)
  qed
  then show ?thesis using look by (simp add: count_number_def)
qed

lemma count_numbers_map:
  assumes "distinct (map fst frequency)" "set nums \<subseteq> fst ` set frequency"
  shows "count_numbers index nums frequency =
           Inr (map (\<lambda>(k, c, li). (k, c + int (count_list nums k),
                                     if li = - 1 \<and> k \<in> set nums then index else li)) frequency)"
  using assms
proof (induction nums arbitrary: frequency)
  case Nil
  then show ?case by (simp add: case_prod_unfold)
next
  case (Cons num rest)
  define step where "step = (\<lambda>(k :: int, c :: int, li :: int).
     if k = num then (k, c + 1, if li = - 1 then index else li) else (k, c, li))"
  define frequency' where "frequency' = map step frequency"
  have one: "count_number index num frequency = Inr frequency'"
    using count_number_map[OF Cons.prems(1), of num index] Cons.prems(2)
    by (simp add: frequency'_def step_def)
  have keys: "map fst frequency' = map fst frequency"
    by (auto simp: frequency'_def step_def split: prod.splits)
  then have d: "distinct (map fst frequency')" using Cons.prems(1) by simp
  have s: "set rest \<subseteq> fst ` set frequency'"
    using Cons.prems(2) keys by (metis list.set_map set_subset_Cons subset_trans)
  have "count_numbers index (num # rest) frequency = count_numbers index rest frequency'"
    using one by simp
  also have "\<dots> = Inr (map (\<lambda>(k, c, li). (k, c + int (count_list rest k),
                                     if li = - 1 \<and> k \<in> set rest then index else li)) frequency')"
    by (rule Cons.IH[OF d s])
  also have "map (\<lambda>(k, c, li). (k, c + int (count_list rest k),
                                     if li = - 1 \<and> k \<in> set rest then index else li)) frequency'
      = map (\<lambda>(k, c, li). (k, c + int (count_list (num # rest) k),
                                     if li = - 1 \<and> k \<in> set (num # rest) then index else li)) frequency"
    unfolding frequency'_def map_map
    by (rule map_cong[OF refl]) (auto simp: step_def split: prod.splits)
  finally show ?case .
qed

lemma count_draws_map:
  assumes "distinct (map fst frequency)"
    and "\<forall>d \<in> set draws. set (Draw.numbers d) \<subseteq> fst ` set frequency"
    and "0 \<le> index"
  shows "count_draws index draws frequency =
           Inr (map (\<lambda>(k, c, li).
                  (k, c + (\<Sum>d\<leftarrow>draws. int (count_list (Draw.numbers d) k)),
                   if li = - 1
                   then (if length (takeWhile (\<lambda>d. k \<notin> set (Draw.numbers d)) draws) < length draws
                         then index + int (length (takeWhile (\<lambda>d. k \<notin> set (Draw.numbers d)) draws))
                         else - 1)
                   else li)) frequency)"
  using assms
proof (induction draws arbitrary: frequency index)
  case Nil
  show ?case by simp (rule map_idI[symmetric], auto)
next
  case (Cons draw rest)
  define step where "step = (\<lambda>(k :: int, c :: int, li :: int).
     (k, c + int (count_list (Draw.numbers draw) k),
      if li = - 1 \<and> k \<in> set (Draw.numbers draw) then index else li))"
  define frequency' where "frequency' = map step frequency"
  have one: "count_numbers index (Draw.numbers draw) frequency = Inr frequency'"
    using count_numbers_map[OF Cons.prems(1), of "Draw.numbers draw" index] Cons.prems(2)
    by (simp add: frequency'_def step_def)
  have keys: "map fst frequency' = map fst frequency"
    by (auto simp: frequency'_def step_def split: prod.splits)
  then have d: "distinct (map fst frequency')" using Cons.prems(1) by simp
  have "fst ` set frequency' = fst ` set frequency" using keys by (metis list.set_map)
  then have s: "\<forall>d \<in> set rest. set (Draw.numbers d) \<subseteq> fst ` set frequency'"
    using Cons.prems(2) by simp
  have i: "0 \<le> index + 1" using Cons.prems(3) by simp
  have "count_draws index (draw # rest) frequency = count_draws (index + 1) rest frequency'"
    using one by simp
  also note Cons.IH[OF d s i]
  also have "map (\<lambda>(k, c, li).
                  (k, c + (\<Sum>d\<leftarrow>rest. int (count_list (Draw.numbers d) k)),
                   if li = - 1
                   then (if length (takeWhile (\<lambda>d. k \<notin> set (Draw.numbers d)) rest) < length rest
                         then index + 1 + int (length (takeWhile (\<lambda>d. k \<notin> set (Draw.numbers d)) rest))
                         else - 1)
                   else li)) frequency'
      = map (\<lambda>(k, c, li).
                  (k, c + (\<Sum>d\<leftarrow>draw # rest. int (count_list (Draw.numbers d) k)),
                   if li = - 1
                   then (if length (takeWhile (\<lambda>d. k \<notin> set (Draw.numbers d)) (draw # rest)) < length (draw # rest)
                         then index + int (length (takeWhile (\<lambda>d. k \<notin> set (Draw.numbers d)) (draw # rest)))
                         else - 1)
                   else li)) frequency"
    unfolding frequency'_def map_map
    using Cons.prems(3) by (intro map_cong[OF refl]) (auto simp: step_def split: prod.splits)
  finally show ?case .
qed

lemma count_list_distinct: "distinct xs \<Longrightarrow> count_list xs x = (if x \<in> set xs then 1 else 0)"
  by (induction xs) auto

lemma occurrences_distinct:
  assumes "\<forall>d \<in> set draws. distinct (Draw.numbers d)"
  shows "(\<Sum>d\<leftarrow>draws. int (count_list (Draw.numbers d) k))
         = int (length (filter (\<lambda>d. k \<in> set (Draw.numbers d)) draws))"
  using assms by (induction draws) (simp_all add: count_list_distinct)

lemma frequency_counted:
  assumes "\<forall>d \<in> set draws. set (Draw.numbers d) \<subseteq> {1..50}"
  shows "calculateNumberFrequency draws =
    Inr (sort_by (\<lambda>a b. 0 < count b - count a)
      (map (\<lambda>i. \<lparr>FrequencyData.number = i,
                   count = (\<Sum>d\<leftarrow>draws. int (count_list (Draw.numbers d) i)),
                   percentage = (if 0 < int (length draws)
                                 then fmul (fdiv (of_int_js (\<Sum>d\<leftarrow>draws. int (count_list (Draw.numbers d) i)))
                                              (of_int_js (int (length draws)))) (Fin 100)
                                 else Fin 0),
                   lastSeen = int (length (takeWhile (\<lambda>d. i \<notin> set (Draw.numbers d)) draws))\<rparr>)
        [1..50]))"
proof -
  define init :: freq_map where "init = map (\<lambda>i. (i, 0, - 1)) [1..50]"
  define G where "G = (\<lambda>(k :: int, c :: int, li :: int).
           (k, c + (\<Sum>d\<leftarrow>draws. int (count_list (Draw.numbers d) k)),
            if li = - 1
            then (if length (takeWhile (\<lambda>d. k \<notin> set (Draw.numbers d)) draws) < length draws
                  then 0 + int (length (takeWhile (\<lambda>d. k \<notin> set (Draw.numbers d)) draws))
                  else - 1)
            else li))"
  define entry where "entry = (\<lambda>i. \<lparr>FrequencyData.number = i,
                   count = (\<Sum>d\<leftarrow>draws. int (count_list (Draw.numbers d) i)),
                   percentage = (if 0 < int (length draws)
                                 then fmul (fdiv (of_int_js (\<Sum>d\<leftarrow>draws. int (count_list (Draw.numbers d) i)))
                                              (of_int_js (int (length draws)))) (Fin 100)
                                 else Fin 0),
                   lastSeen = int (length (takeWhile (\<lambda>d. i \<notin> set (Draw.numbers d)) draws))\<rparr>)"
  have keys: "map fst init = [1..50]" by (simp add: init_def comp_def)
  have d: "distinct (map fst init)" unfolding keys by simp
  have "fst ` set init = {1..50}" using keys by (metis list.set_map set_upto)
  then have s: "\<forall>d \<in> set draws. set (Draw.numbers d) \<subseteq> fst ` set init" using assms by simp
  have cd: "count_draws 0 draws init = Inr (map G init)"
    unfolding G_def by (rule count_draws_map[OF d s]) simp
  have le: "length (takeWhile (\<lambda>d. i \<notin> set (Draw.numbers d)) draws) \<le> length draws" for i
    by (rule length_takeWhile_le)
  have e: "frequency_entry (int (length draws)) (G (i, 0, - 1)) = entry i" for i
    using le[of i] by (simp add: frequency_entry_def G_def entry_def)
  have "map (frequency_entry (int (length draws))) (map G init) = map entry [1..50]"
    unfolding init_def map_map by (rule map_cong[OF refl]) (simp add: e)
  then have "calculateNumberFrequency draws = Inr (sort_by (\<lambda>a b. 0 < count b - count a) (map entry [1..50]))"
    unfolding calculateNumberFrequency_def init_def[symmetric] cd by simp
  then show ?thesis unfolding entry_def .
qed

text \<open>
  C9. For a history whose draws hold numbers of the pool 1..50, the frequency table has
  one entry for each of the 50 numbers, those never drawn included, sorted by count
  descending. The count of a number is the number of its occurrences (of the draws
  containing it, when no draw repeats a number), its percentage is
  \<open>count / |history| * 100\<close> and 0 for the empty history, and its lastSeen is the index of
  the first draw containing it, counted from the most recent draw 0, or \<open>|history|\<close> when
  no draw contains it.
\<close>

theorem frequency_table:
  assumes "\<forall>d \<in> set draws. set (Draw.numbers d) \<subseteq> {1..50}"
  shows "\<exists>table. calculateNumberFrequency draws = Inr table
      \<and> mset (map FrequencyData.number table) = mset [1..50]
      \<and> sorted_wrt (\<lambda>a b. count b \<le> count a) table
      \<and> (\<forall>e \<in> set table.
            count e = (\<Sum>d\<leftarrow>draws. int (count_list (Draw.numbers d) (FrequencyData.number e)))
          \<and> ((\<forall>d \<in> set draws. distinct (Draw.numbers d)) \<longrightarrow>
               count e = int (length (filter (\<lambda>d. FrequencyData.number e \<in> set (Draw.numbers d)) draws)))
          \<and> percentage e = (if draws = [] then Fin 0
                             else fmul (fdiv (of_int_js (count e)) (of_int_js (int (length draws)))) (Fin 100))
          \<and> lastSeen e = int (length (takeWhile (\<lambda>d. FrequencyData.number e \<notin> set (Draw.numbers d)) draws)))"
proof -
  define entry where "entry = (\<lambda>i. \<lparr>FrequencyData.number = i,
                   count = (\<Sum>d\<leftarrow>draws. int (count_list (Draw.numbers d) i)),
                   percentage = (if 0 < int (length draws)
                                 then fmul (fdiv (of_int_js (\<Sum>d\<leftarrow>draws. int (count_list (Draw.numbers d) i)))
                                              (of_int_js (int (length draws)))) (Fin 100)
                                 else Fin 0),
                   lastSeen = int (length (takeWhile (\<lambda>d. i \<notin> set (Draw.numbers d)) draws))\<rparr>)"
  define table where "table = sort_by (\<lambda>a b. 0 < count b - count a) (map entry [1..50])"
  have r: "calculateNumberFrequency draws = Inr table"
    unfolding table_def entry_def by (rule frequency_counted[OF assms])
  have "map FrequencyData.number (map entry [1..50]) = [1..50]"
    by (simp add: entry_def comp_def del: upto.simps)
  then have m: "mset (map FrequencyData.number table) = mset [1..50]"
    unfolding table_def by (simp only: mset_map_sort_by)
  have s: "sorted_wrt (\<lambda>a b. count b \<le> count a) table"
    unfolding table_def by (rule sorted_descending)
  have "set table = entry ` {1..50}" unfolding table_def by (simp add: set_sort_by del: upto.simps)
  then have "\<forall>e \<in> set table.
            count e = (\<Sum>d\<leftarrow>draws. int (count_list (Draw.numbers d) (FrequencyData.number e)))
          \<and> ((\<forall>d \<in> set draws. distinct (Draw.numbers d)) \<longrightarrow>
               count e = int (length (filter (\<lambda>d. FrequencyData.number e \<in> set (Draw.numbers d)) draws)))
          \<and> percentage e = (if draws = [] then Fin 0
                             else fmul (fdiv (of_int_js (count e)) (of_int_js (int (length draws)))) (Fin 100))
          \<and> lastSeen e = int (length (takeWhile (\<lambda>d. FrequencyData.number e \<notin> set (Draw.numbers d)) draws))"
    by (auto simp: entry_def occurrences_distinct)
  then show ?thesis using r m s by blast
qed

lemma frequency_out_of_pool:
  "calculateNumberFrequency [\<lparr>date = ''2024-01-05'', Draw.numbers = [51], Draw.stars = []\<rparr>] = Inl TypeError"
proof -
  have "map_of (map (\<lambda>i. (i, 0, - 1)) [1..50]) (51::int) = (None :: (int \<times> int) option)"
    by (simp add: map_of_eq_None_iff image_iff del: upto.simps)
  then show ?thesis by (simp add: calculateNumberFrequency_def count_number_def del: upto.simps)
qed

theorem frequency_table_witness:
  "\<exists>table. calculateNumberFrequency
       [\<lparr>date = ''2024-01-09'', Draw.numbers = [3, 17, 21, 34, 50], Draw.stars = [2, 9]\<rparr>,
        \<lparr>date = ''2024-01-05'', Draw.numbers = [1, 17, 22, 40, 41], Draw.stars = [5, 9]\<rparr>] = Inr table
     \<and> mset (map FrequencyData.number table) = mset [1..50]"
proof -
  have h: "\<forall>d \<in> set [\<lparr>date = ''2024-01-09'', Draw.numbers = [3, 17, 21, 34, 50], Draw.stars = [2, 9]\<rparr>,
        \<lparr>date = ''2024-01-05'', Draw.numbers = [1, 17, 22, 40, 41], Draw.stars = [5, 9]\<rparr>].
          set (Draw.numbers d) \<subseteq> {1..50}" by simp
  from frequency_table[OF h] show ?thesis by blast
qed

section \<open>Properties of the generator: the selections\<close>

lemma number_calculateNumberProbability [simp]:
  "NumberProbability.number (calculateNumberProbability i draws t) = i"
  by (simp add: calculateNumberProbability_def Let_def)

lemma numbers_getAllNumberProbabilities:
  "mset (map NumberProbability.number (getAllNumberProbabilities draws t))
     = mset [1..(if t = Numbers then 50 else 12)]"
proof -
  have "map NumberProbability.number (map (\<lambda>i. calculateNumberProbability i draws t) [1..m]) = [1..m]" for m
    by (simp add: comp_def)
  then show ?thesis
    unfolding getAllNumberProbabilities_def Let_def by (simp only: mset_map_sort_by)
qed

lemma getAllNumberProbabilities_pool:
  fixes draws t
  defines "ps \<equiv> getAllNumberProbabilities draws t"
  shows "distinct (map NumberProbability.number ps)"
    and "NumberProbability.number ` set ps = {1..(if t = Numbers then 50 else 12)}"
    and "length ps = (if t = Numbers then 50 else 12)"
proof -
  let ?m = "if t = Numbers then 50 else (12::int)"
  have m: "mset (map NumberProbability.number ps) = mset [1..?m]"
    unfolding ps_def by (rule numbers_getAllNumberProbabilities)
  have "distinct [1..?m]" by simp
  then show "distinct (map NumberProbability.number ps)" using m by (metis mset_eq_imp_distinct_iff)
  have "set (map NumberProbability.number ps) = set [1..?m]" using m by (metis set_mset_mset)
  then show "NumberProbability.number ` set ps = {1..?m}" by simp
  have "length (map NumberProbability.number ps) = length [1..?m]" using m by (metis size_mset)
  then show "length ps = (if t = Numbers then 50 else 12)" by simp
qed

lemma find_unselected:
  assumes "distinct (map NumberProbability.number cands)" "distinct selected"
    and "length selected < length cands"
  shows "\<exists>c. List.find (unselected selected) cands = Some c \<and> c \<in> set cands
             \<and> NumberProbability.number c \<notin> set selected"
proof -
  have "card (set selected) = length selected" using assms(2) by (rule distinct_card)
  moreover have "card (NumberProbability.number ` set cands) = length cands"
    using distinct_card[OF assms(1)] by simp
  ultimately have "card (set selected) < card (NumberProbability.number ` set cands)"
    using assms(3) by simp
  then have "\<not> NumberProbability.number ` set cands \<subseteq> set selected"
    using card_mono[of "set selected" "NumberProbability.number ` set cands"] by auto
  then obtain c where c: "c \<in> set cands" "unselected selected c" by (auto simp: unselected_def)
  then obtain c' where f: "List.find (unselected selected) cands = Some c'"
    by (cases "List.find (unselected selected) cands") (auto simp: find_None_iff)
  then have "c' \<in> set cands \<and> unselected selected c'"
    by (auto simp: find_Some_iff)
  then show ?thesis using f by (auto simp: unselected_def)
qed

lemma fill_first_complete:
  assumes "distinct (map NumberProbability.number cands)" "k \<le> length cands"
    and "distinct selected" "set selected \<subseteq> NumberProbability.number ` set cands"
    and "length selected \<le> k"
  shows "length (fill_first k cands selected) = k
         \<and> distinct (fill_first k cands selected)
         \<and> set (fill_first k cands selected) \<subseteq> NumberProbability.number ` set cands"
  using assms
proof (induction k cands selected rule: fill_first.induct)
  case (1 k cands selected)
  show ?case
  proof (cases "length selected < k")
    case False
    then have "fill_first k cands selected = selected" by (subst fill_first.simps) simp
    then show ?thesis using False 1 by simp
  next
    case True
    then have "length selected < length cands" using "1.prems"(2) by simp
    from find_unselected[OF "1.prems"(1) "1.prems"(3) this] obtain c where
      c: "List.find (unselected selected) cands = Some c" "c \<in> set cands"
         "NumberProbability.number c \<notin> set selected" by blast
    have step: "fill_first k cands selected = fill_first k cands (selected @ [NumberProbability.number c])"
      using True c(1) by (subst fill_first.simps) simp
    have "length (fill_first k cands (selected @ [NumberProbability.number c])) = k
         \<and> distinct (fill_first k cands (selected @ [NumberProbability.number c]))
         \<and> set (fill_first k cands (selected @ [NumberProbability.number c])) \<subseteq> NumberProbability.number ` set cands"
      using True c "1.prems" by (intro "1.IH"[OF True c(1)]) auto
    then show ?thesis unfolding step .
  qed
qed

lemma find_filter: "List.find P xs = (case filter P xs of [] \<Rightarrow> None | x # _ \<Rightarrow> Some x)"
  by (induction xs) auto

lemma fill_remaining_fill_first: "fill_remaining cands selected = fill_first 5 cands selected"
proof (induction cands selected rule: fill_remaining.induct)
  case (1 cands selected)
  show ?case
  proof (cases "length selected < 5")
    case False
    then show ?thesis by (subst fill_remaining.simps, subst fill_first.simps) simp
  next
    case True
    show ?thesis
    proof (cases "filter (unselected selected) cands")
      case Nil
      then show ?thesis using True
        by (subst fill_remaining.simps, subst fill_first.simps) (simp add: find_filter)
    next
      case (Cons r rest)
      then show ?thesis using True "1.IH"[OF True Cons]
        by (subst fill_remaining.simps, subst fill_first.simps) (simp add: find_filter)
    qed
  qed
qed

lemma best_loop_selection:
  assumes "distinct (map NumberProbability.number cs)" "distinct selected"
    and "set selected \<inter> NumberProbability.number ` set cs = {}" "length selected \<le> 5"
  shows "distinct (best_loop cs selected)
         \<and> set (best_loop cs selected) \<subseteq> set selected \<union> NumberProbability.number ` set cs
         \<and> length (best_loop cs selected) \<le> 5"
  using assms
proof (induction cs arbitrary: selected)
  case Nil
  then show ?case by simp
next
  case (Cons c cs)
  have skip: "distinct (best_loop cs selected)
         \<and> set (best_loop cs selected) \<subseteq> set selected \<union> NumberProbability.number ` set cs
         \<and> length (best_loop cs selected) \<le> 5"
    using Cons.prems by (intro Cons.IH) auto
  have push: "distinct (best_loop cs (selected @ [NumberProbability.number c]))
         \<and> set (best_loop cs (selected @ [NumberProbability.number c]))
             \<subseteq> set (selected @ [NumberProbability.number c]) \<union> NumberProbability.number ` set cs
         \<and> length (best_loop cs (selected @ [NumberProbability.number c])) \<le> 5"
    if "length selected < 5"
    using Cons.prems that by (intro Cons.IH) auto
  show ?case using skip push Cons.prems(2,4) by (auto simp: not_le)
qed

lemma pattern_loop_step:
  assumes "length selected < 5"
  shows "pattern_loop (c # cs) (selected, e, od, lo, hi) = pattern_loop cs (selected, e, od, lo, hi)
       \<or> (\<exists>e' od' lo' hi'. pattern_loop (c # cs) (selected, e, od, lo, hi)
             = pattern_loop cs (selected @ [NumberProbability.number c], e', od', lo', hi'))"
  using assms by (simp add: Let_def) blast

lemma pattern_loop_selection:
  assumes "distinct (map NumberProbability.number cs)" "distinct selected"
    and "set selected \<inter> NumberProbability.number ` set cs = {}" "length selected \<le> 5"
  shows "distinct (pattern_loop cs (selected, e, od, lo, hi))
         \<and> set (pattern_loop cs (selected, e, od, lo, hi)) \<subseteq> set selected \<union> NumberProbability.number ` set cs
         \<and> length (pattern_loop cs (selected, e, od, lo, hi)) \<le> 5"
  using assms
proof (induction cs arbitrary: selected e od lo hi)
  case Nil
  then show ?case by simp
next
  case (Cons c cs)
  have skip: "distinct (pattern_loop cs (selected, e', od', lo', hi'))
         \<and> set (pattern_loop cs (selected, e', od', lo', hi')) \<subseteq> set selected \<union> NumberProbability.number ` set cs
         \<and> length (pattern_loop cs (selected, e', od', lo', hi')) \<le> 5" for e' od' lo' hi'
    using Cons.prems by (intro Cons.IH) auto
  have push: "distinct (pattern_loop cs (selected @ [NumberProbability.number c], e', od', lo', hi'))
         \<and> set (pattern_loop cs (selected @ [NumberProbability.number c], e', od', lo', hi'))
             \<subseteq> set (selected @ [NumberProbability.number c]) \<union> NumberProbability.number ` set cs
         \<and> length (pattern_loop cs (selected @ [NumberProbability.number c], e', od', lo', hi')) \<le> 5"
    if "length selected < 5" for e' od' lo' hi'
    using Cons.prems that by (intro Cons.IH) auto
  show ?case
  proof (cases "5 \<le> length selected")
    case True
    then show ?thesis using Cons.prems(2,4) by auto
  next
    case False
    then have lt: "length selected < 5" by simp
    from pattern_loop_step[OF lt, of c cs e od lo hi] show ?thesis
    proof
      assume "pattern_loop (c # cs) (selected, e, od, lo, hi) = pattern_loop cs (selected, e, od, lo, hi)"
      then show ?thesis using skip[of e od lo hi] by auto
    next
      assume "\<exists>e' od' lo' hi'. pattern_loop (c # cs) (selected, e, od, lo, hi)
             = pattern_loop cs (selected @ [NumberProbability.number c], e', od', lo', hi')"
      then obtain e' od' lo' hi' where "pattern_loop (c # cs) (selected, e, od, lo, hi)
             = pattern_loop cs (selected @ [NumberProbability.number c], e', od', lo', hi')" by blast
      then show ?thesis using push[OF lt, of e' od' lo' hi'] by auto
    qed
  qed
qed

lemma push_new_selection:
  assumes "distinct selected"
  shows "distinct (push_new c selected)"
    and "set (push_new c selected) \<subseteq> set selected \<union> {NumberProbability.number c}"
    and "length (push_new c selected) \<le> length selected + 1"
  using assms by (auto simp: push_new_def)

lemma fold_push_new_selection:
  assumes "distinct selected"
  shows "distinct (fold push_new cs selected)
         \<and> set (fold push_new cs selected) \<subseteq> set selected \<union> NumberProbability.number ` set cs
         \<and> length (fold push_new cs selected) \<le> length selected + length cs"
  using assms
proof (induction cs arbitrary: selected)
  case Nil
  then show ?case by simp
next
  case (Cons c cs)
  from push_new_selection[OF Cons.prems, of c] Cons.IH[of "push_new c selected"]
  show ?case by auto
qed

lemma overdue_loop_selection:
  assumes "distinct selected" "length selected \<le> 5"
  shows "distinct (overdue_loop cs selected)
         \<and> set (overdue_loop cs selected) \<subseteq> set selected \<union> NumberProbability.number ` set cs
         \<and> length (overdue_loop cs selected) \<le> 5"
  using assms
proof (induction cs arbitrary: selected)
  case Nil
  then show ?case by simp
next
  case (Cons c cs)
  show ?case
  proof (cases "length selected < 5")
    case False
    then show ?thesis using Cons.prems by auto
  next
    case True
    then have "length (push_new c selected) \<le> 5"
      using push_new_selection(3)[OF Cons.prems(1), of c] by simp
    from Cons.IH[OF push_new_selection(1)[OF Cons.prems(1)] this]
      push_new_selection(2)[OF Cons.prems(1), of c] True
    show ?thesis by auto
  qed
qed

lemma first_new_selection:
  assumes "distinct selected"
  shows "distinct (first_new cs selected)
         \<and> set (first_new cs selected) \<subseteq> set selected \<union> NumberProbability.number ` set cs
         \<and> length (first_new cs selected) \<le> length selected + 1"
  using assms by (induction cs) auto

lemma pick_loop_selection:
  assumes "distinct selected"
  shows "distinct (pick_loop rv cs selected cum)
         \<and> set (pick_loop rv cs selected cum) \<subseteq> set selected \<union> NumberProbability.number ` set cs
         \<and> (length (pick_loop rv cs selected cum) = length selected
              \<or> length (pick_loop rv cs selected cum) = length selected + 1)"
  using assms by (induction cs arbitrary: cum) (auto simp: Let_def)

lemma pick_step_selection:
  assumes "distinct (map NumberProbability.number tops)" "distinct selected"
    and "set selected \<subseteq> NumberProbability.number ` set tops"
    and "length selected = i" "i < length tops"
  shows "distinct (pick_step random tops i selected)
         \<and> set (pick_step random tops i selected) \<subseteq> NumberProbability.number ` set tops
         \<and> length (pick_step random tops i selected) = i + 1"
proof -
  define rv where "rv = fmul (random (int i)) (of_int_js (fold (\<lambda>w sum. sum + w) (map totalScore tops) 0))"
  define picked where "picked = pick_loop rv tops selected 0"
  have p: "distinct picked" "set picked \<subseteq> NumberProbability.number ` set tops"
    "length picked = i \<or> length picked = i + 1"
    using pick_loop_selection[OF assms(2), of rv tops 0] assms(3,4) unfolding picked_def by auto
  show ?thesis
  proof (cases "length picked = i")
    case False
    then have "pick_step random tops i selected = picked"
      by (simp add: pick_step_def Let_def rv_def picked_def)
    then show ?thesis using p False by simp
  next
    case True
    then have "length picked < length tops" using assms(5) by simp
    from find_unselected[OF assms(1) p(1) this] obtain c where
      c: "List.find (unselected picked) tops = Some c" "c \<in> set tops"
         "NumberProbability.number c \<notin> set picked" by blast
    have "pick_step random tops i selected = picked @ [NumberProbability.number c]"
      using True c(1) by (simp add: pick_step_def Let_def rv_def picked_def)
    then show ?thesis using p c True by auto
  qed
qed

lemma pick_rounds_selection:
  assumes "distinct (map NumberProbability.number tops)" "n \<le> length tops"
  shows "distinct (fold (pick_step random tops) [0..<n] [])
         \<and> set (fold (pick_step random tops) [0..<n] []) \<subseteq> NumberProbability.number ` set tops
         \<and> length (fold (pick_step random tops) [0..<n] []) = n"
  using assms(2)
proof (induction n)
  case 0
  then show ?case by simp
next
  case (Suc n)
  then have ih: "distinct (fold (pick_step random tops) [0..<n] [])"
    "set (fold (pick_step random tops) [0..<n] []) \<subseteq> NumberProbability.number ` set tops"
    "length (fold (pick_step random tops) [0..<n] []) = n" by simp_all
  have "n < length tops" using Suc.prems by simp
  from pick_step_selection[OF assms(1) ih this, of random] show ?case by simp
qed

lemma take_pool:
  assumes "distinct (map NumberProbability.number ps)"
  shows "distinct (map NumberProbability.number (take k ps))"
    and "NumberProbability.number ` set (take k ps) \<subseteq> NumberProbability.number ` set ps"
    and "length (take k ps) = min k (length ps)"
proof -
  show "distinct (map NumberProbability.number (take k ps))"
    using assms by (simp add: take_map[symmetric])
  show "NumberProbability.number ` set (take k ps) \<subseteq> NumberProbability.number ` set ps"
    by (auto dest: in_set_takeD)
  show "length (take k ps) = min k (length ps)" by auto
qed

lemma sort_asc_selection:
  "length (sort_asc xs) = length xs" "distinct (sort_asc xs) = distinct xs" "set (sort_asc xs) = set xs"
  by (simp_all add: sort_asc_sort)

lemma selectBestNumbers_valid:
  assumes "distinct (map NumberProbability.number ps)" "5 \<le> length ps"
  shows "length (selectBestNumbers ps) = 5 \<and> distinct (selectBestNumbers ps)
         \<and> set (selectBestNumbers ps) \<subseteq> NumberProbability.number ` set ps"
proof -
  define tops where "tops = take 15 ps"
  have t: "distinct (map NumberProbability.number tops)"
    "NumberProbability.number ` set tops \<subseteq> NumberProbability.number ` set ps" "5 \<le> length tops"
    using take_pool[OF assms(1), of 15] assms(2) by (simp_all add: tops_def)
  have b: "distinct (best_loop tops [])" "set (best_loop tops []) \<subseteq> NumberProbability.number ` set tops"
    "length (best_loop tops []) \<le> 5"
    using best_loop_selection[OF t(1), of "[]"] by simp_all
  from fill_first_complete[OF t(1) t(3) b] t(2) show ?thesis
    by (auto simp: selectBestNumbers_def Let_def tops_def[symmetric] fill_remaining_fill_first
        sort_asc_selection)
qed

lemma selectBestStars_valid:
  assumes "distinct (map NumberProbability.number ps)" "2 \<le> length ps"
  shows "length (selectBestStars ps) = 2 \<and> distinct (selectBestStars ps)
         \<and> set (selectBestStars ps) \<subseteq> NumberProbability.number ` set ps"
  using take_pool[OF assms(1), of 2] assms(2)
  by (auto simp: selectBestStars_def sort_asc_selection)

lemma selectBalancedNumbers_valid:
  assumes "distinct (map NumberProbability.number ps)" "5 \<le> length ps"
  shows "length (selectBalancedNumbers ps) = 5 \<and> distinct (selectBalancedNumbers ps)
         \<and> set (selectBalancedNumbers ps) \<subseteq> NumberProbability.number ` set ps"
proof -
  define hot where "hot = take 3 (take 10 (sort_by (\<lambda>a b. 0 < NumberProbability.hotColdScore b - NumberProbability.hotColdScore a) ps))"
  define overdue where "overdue = take 10 (sort_by (\<lambda>a b. 0 < NumberProbability.overdueScore b - NumberProbability.overdueScore a) ps)"
  have h: "set hot \<subseteq> set ps" "length hot \<le> 3"
    by (auto simp: hot_def set_sort_by dest!: in_set_takeD)
  have o: "set overdue \<subseteq> set ps"
    by (auto simp: overdue_def set_sort_by dest!: in_set_takeD)
  define s1 where "s1 = fold push_new hot []"
  have "NumberProbability.number ` set hot \<subseteq> NumberProbability.number ` set ps"
    using h(1) by blast
  then have s1: "distinct s1" "set s1 \<subseteq> NumberProbability.number ` set ps" "length s1 \<le> 5"
    using fold_push_new_selection[of "[]" hot] h(2) by (auto simp: s1_def)
  define s2 where "s2 = overdue_loop overdue s1"
  have "NumberProbability.number ` set overdue \<subseteq> NumberProbability.number ` set ps"
    using o by blast
  moreover have "distinct s2 \<and> set s2 \<subseteq> set s1 \<union> NumberProbability.number ` set overdue \<and> length s2 \<le> 5"
    unfolding s2_def by (rule overdue_loop_selection[OF s1(1,3)])
  ultimately have s2: "distinct s2" "set s2 \<subseteq> NumberProbability.number ` set ps" "length s2 \<le> 5"
    using s1(2) by blast+
  have "selectBalancedNumbers ps = sort_asc (fill_first 5 ps s2)"
    unfolding selectBalancedNumbers_def Let_def s2_def s1_def hot_def overdue_def ..
  with fill_first_complete[OF assms(1) assms(2) s2] show ?thesis
    by (simp add: sort_asc_selection)
qed

lemma selectBalancedStars_valid:
  assumes "distinct (map NumberProbability.number ps)" "2 \<le> length ps"
  shows "length (selectBalancedStars ps) = 2 \<and> distinct (selectBalancedStars ps)
         \<and> set (selectBalancedStars ps) \<subseteq> NumberProbability.number ` set ps"
proof -
  define hot where "hot = sort_by (\<lambda>a b. 0 < NumberProbability.hotColdScore b - NumberProbability.hotColdScore a) ps"
  define overdue where "overdue = sort_by (\<lambda>a b. 0 < NumberProbability.overdueScore b - NumberProbability.overdueScore a) ps"
  define s1 where "s1 = (case hot of [] \<Rightarrow> [] | s # _ \<Rightarrow> [NumberProbability.number s])"
  have "set hot = set ps" by (simp add: hot_def set_sort_by)
  then have s1: "distinct s1" "set s1 \<subseteq> NumberProbability.number ` set ps" "length s1 \<le> 1"
    by (auto simp: s1_def split: list.splits)
  define s2 where "s2 = first_new overdue s1"
  have "set overdue = set ps" by (simp add: overdue_def set_sort_by)
  then have s2: "distinct s2" "set s2 \<subseteq> NumberProbability.number ` set ps" "length s2 \<le> 2"
    using first_new_selection[OF s1(1), of overdue] s1(2,3) by (auto simp: s2_def)
  have "selectBalancedStars ps = sort_asc (fill_first 2 ps s2)"
    unfolding selectBalancedStars_def Let_def s2_def s1_def hot_def overdue_def ..
  with fill_first_complete[OF assms(1) assms(2) s2] show ?thesis
    by (simp add: sort_asc_selection)
qed

lemma selectPatternNumbers_valid:
  assumes "distinct (map NumberProbability.number ps)" "5 \<le> length ps"
  shows "length (selectPatternNumbers ps) = 5 \<and> distinct (selectPatternNumbers ps)
         \<and> set (selectPatternNumbers ps) \<subseteq> NumberProbability.number ` set ps"
proof -
  define tops where "tops = take 20 ps"
  have t: "distinct (map NumberProbability.number tops)"
    "NumberProbability.number ` set tops \<subseteq> NumberProbability.number ` set ps" "5 \<le> length tops"
    using take_pool[OF assms(1), of 20] assms(2) by (simp_all add: tops_def)
  have b: "distinct (pattern_loop tops ([], 0, 0, 0, 0))"
    "set (pattern_loop tops ([], 0, 0, 0, 0)) \<subseteq> NumberProbability.number ` set tops"
    "length (pattern_loop tops ([], 0, 0, 0, 0)) \<le> 5"
    using pattern_loop_selection[OF t(1), of "[]" 0 0 0 0] by simp_all
  from fill_first_complete[OF t(1) t(3) b] t(2) show ?thesis
    by (auto simp: selectPatternNumbers_def Let_def tops_def[symmetric] sort_asc_selection)
qed

lemma selectWeightedRandomNumbers_valid:
  assumes "distinct (map NumberProbability.number ps)" "5 \<le> length ps"
  shows "length (selectWeightedRandomNumbers msin ps seed) = 5
         \<and> distinct (selectWeightedRandomNumbers msin ps seed)
         \<and> set (selectWeightedRandomNumbers msin ps seed) \<subseteq> NumberProbability.number ` set ps"
proof -
  define tops where "tops = take 25 ps"
  have t: "distinct (map NumberProbability.number tops)"
    "NumberProbability.number ` set tops \<subseteq> NumberProbability.number ` set ps" "5 \<le> length tops"
    using take_pool[OF assms(1), of 25] assms(2) by (simp_all add: tops_def)
  from pick_rounds_selection[OF t(1) t(3), of "random_of msin 12345 67890 seed"] t(2) show ?thesis
    by (simp add: selectWeightedRandomNumbers_def Let_def tops_def[symmetric] sort_asc_selection; blast)
qed

lemma selectWeightedRandomStars_valid:
  assumes "distinct (map NumberProbability.number ps)" "2 \<le> length ps"
  shows "length (selectWeightedRandomStars msin ps seed) = 2
         \<and> distinct (selectWeightedRandomStars msin ps seed)
         \<and> set (selectWeightedRandomStars msin ps seed) \<subseteq> NumberProbability.number ` set ps"
proof -
  define tops where "tops = take 6 ps"
  have t: "distinct (map NumberProbability.number tops)"
    "NumberProbability.number ` set tops \<subseteq> NumberProbability.number ` set ps" "2 \<le> length tops"
    using take_pool[OF assms(1), of 6] assms(2) by (simp_all add: tops_def)
  from pick_rounds_selection[OF t(1) t(3), of "random_of msin 54321 98760 seed"] t(2) show ?thesis
    by (simp add: selectWeightedRandomStars_def Let_def tops_def[symmetric] sort_asc_selection; blast)
qed

section \<open>Properties of the generator: scores and ranks\<close>

lemma pow2_huge: "2 ^ 20 \<le> pow2 1023"
  using pow2_mono[of 20 1023] by (simp add: pow2_def)

lemma fl_range:
  assumes "0 \<le> x" "x \<le> b" "b \<le> 10000"
  shows "\<exists>v. fl x = Fin v \<and> 0 \<le> v \<and> v \<le> 2 * b"
proof -
  have "x < pow2 1023" using assms pow2_huge by simp
  from fl_nonneg[OF assms(1) this] assms(2) show ?thesis by force
qed

lemma fadd_range:
  assumes "0 \<le> a" "a \<le> p" "0 \<le> b" "b \<le> q" "p + q \<le> 10000"
  shows "\<exists>v. fadd (Fin a) (Fin b) = Fin v \<and> 0 \<le> v \<and> v \<le> 2 * (p + q)"
  using fl_range[of "a + b" "p + q"] assms by simp

lemma average_range:
  assumes "0 \<le> tot" "tot \<le> m * int n" "0 < n" "0 \<le> m" "m \<le> 100"
  shows "\<exists>v. fdiv (of_int_js tot) (of_int_js (int n)) = Fin v \<and> 0 \<le> v \<and> v \<le> 2 * of_int m"
proof -
  have n: "(0::rat) < of_nat n" using assms(3) by simp
  have "(of_int tot :: rat) \<le> of_int (m * int n)" using assms(2) by (simp only: of_int_le_iff)
  then have "(of_int tot :: rat) \<le> of_int m * of_nat n" by simp
  then have "(of_int tot :: rat) / of_nat n \<le> of_int m" using n by (simp add: field_simps)
  moreover have "(0::rat) \<le> of_int tot / of_nat n" using assms(1) n by simp
  moreover have "(of_int m :: rat) \<le> 10000" using assms(5) by simp
  ultimately show ?thesis
    using fl_range[of "of_int tot / of_nat n" "of_int m"] assms(3) by (simp add: of_int_js_def)
qed

lemma round1_on_grid:
  assumes "0 \<le> m" "m \<le> 100"
  shows "\<exists>v. round1 (Fin m) = Fin v \<and> on_grid v"
proof -
  obtain w where w: "fl (m * 10) = Fin w" "0 \<le> w" "w \<le> 2000"
    using fl_range[of "m * 10" 1000] assms by auto
  define k where "k = \<lfloor>w + 1 / 2\<rfloor>"
  have k: "0 \<le> k" "k \<le> 2001" using w(2,3) unfolding k_def by linarith+
  have "(0::rat) \<le> of_int k / 10" "(of_int k :: rat) / 10 \<le> 2001" using k by simp_all
  then obtain v where v: "fl (of_int k / 10) = Fin v" using fl_range[of "of_int k / 10" 2001] by auto
  then have "round1 (Fin m) = Fin v" using w(1) by (simp add: round1_def k_def)
  then show ?thesis using fl_on_grid[OF v] by simp
qed

lemma comparator_consistent:
  assumes "on_grid a" "on_grid b"
  shows "fgt (fsub (Fin b) (Fin a)) (Fin 0) = (a < b)"
proof -
  define q where "q = pow2 (- 1074)"
  have q: "0 < q" by (simp add: q_def pow2_pos)
  obtain ma mb :: int where m: "a = of_int ma * q" "b = of_int mb * q"
    using assms by (auto simp: on_grid_def q_def)
  have gap: "q \<le> y - x" if "x < y" "x = of_int mx * q" "y = of_int my * q" for x y :: rat and mx my :: int
  proof -
    have "mx < my" using that q by (simp add: mult_less_cancel_right)
    then have "1 \<le> my - mx" by simp
    then have "(1::rat) \<le> of_int (my - mx)" by (simp only: of_int_1_le_iff)
    then have "1 * q \<le> of_int (my - mx) * q" using q by (simp only: mult_le_cancel_right) simp
    then show ?thesis using that by (simp add: left_diff_distrib)
  qed
  have s: "fsub (Fin b) (Fin a) = fl (b - a)" by (simp add: fsub_def)
  consider "a < b" | "a = b" | "b < a" by linarith
  then show ?thesis
  proof cases
    case 1
    from fl_pos[of "b - a"] gap[OF 1 m] have "fl (b - a) = PInf \<or> (\<exists>v. fl (b - a) = Fin v \<and> 0 < v)"
      by (simp add: q_def)
    then show ?thesis using 1 s by (auto simp: fgt_def)
  next
    case 2
    then show ?thesis using s by (simp add: fgt_def fl_def)
  next
    case 3
    from fl_pos[of "a - b"] gap[OF 3 m(2,1)] have "fl (a - b) = PInf \<or> (\<exists>v. fl (a - b) = Fin v \<and> 0 < v)"
      by (simp add: q_def)
    moreover have "fl (b - a) = fneg (fl (a - b))" using fl_neg[of "a - b"] by simp
    ultimately show ?thesis using 3 s by (auto simp: fgt_def)
  qed
qed

lemma add_scores_bounds:
  "case add_scores t draws x (a, b, c, d) of (a', b', c', d') \<Rightarrow>
     a \<le> a' \<and> a' \<le> a + 40 \<and> b \<le> b' \<and> b' \<le> b + 30
     \<and> c \<le> c' \<and> c' \<le> c + 20 \<and> d \<le> d' \<and> d' \<le> d + 10"
  using score_bounds[of x draws t] patternScore_range[of x t]
  by (simp add: add_scores_def calculateNumberProbability_def Let_def)

lemma fold_add_scores_bounds:
  "case fold (add_scores t draws) xs (a, b, c, d) of (a', b', c', d') \<Rightarrow>
     a \<le> a' \<and> a' \<le> a + 40 * int (length xs) \<and> b \<le> b' \<and> b' \<le> b + 30 * int (length xs)
     \<and> c \<le> c' \<and> c' \<le> c + 20 * int (length xs) \<and> d \<le> d' \<and> d' \<le> d + 10 * int (length xs)"
proof (induction xs arbitrary: a b c d)
  case Nil
  then show ?case by simp
next
  case (Cons x xs)
  obtain a1 b1 c1 d1 where one: "add_scores t draws x (a, b, c, d) = (a1, b1, c1, d1)"
    by (cases "add_scores t draws x (a, b, c, d)") auto
  from add_scores_bounds[where t=t and draws=draws and x=x and a=a and b=b and c=c and d=d]
    Cons.IH[where a=a1 and b=b1 and c=c1 and d=d1] show ?case
    by (auto simp: one split: prod.splits)
qed

lemma probabilityScore_on_grid:
  assumes "0 < length nums + length strs"
  shows "\<exists>v. probabilityScore (scoreCombination nums strs draws) = Fin v \<and> on_grid v"
proof -
  define n where "n = length nums + length strs"
  obtain a1 b1 c1 d1 where t1: "fold (add_scores Numbers draws) nums (0, 0, 0, 0) = (a1, b1, c1, d1)"
    by (cases "fold (add_scores Numbers draws) nums (0, 0, 0, 0)") auto
  obtain tf th tp to where t2: "fold (add_scores Stars draws) strs (a1, b1, c1, d1) = (tf, th, tp, to)"
    by (cases "fold (add_scores Stars draws) strs (a1, b1, c1, d1)") auto
  have b: "0 \<le> tf" "tf \<le> 40 * int n" "0 \<le> th" "th \<le> 30 * int n"
    "0 \<le> tp" "tp \<le> 20 * int n" "0 \<le> to" "to \<le> 10 * int n"
    using fold_add_scores_bounds[where t=Numbers and draws=draws and xs=nums and a=0 and b=0 and c=0 and d=0]
      fold_add_scores_bounds[where t=Stars and draws=draws and xs=strs and a=a1 and b=b1 and c=c1 and d=d1]
    by (simp_all add: t1 t2 n_def)
  have n: "0 < n" using assms by (simp add: n_def)
  obtain af where af: "fdiv (of_int_js tf) (of_int_js (int n)) = Fin af" "0 \<le> af" "af \<le> 80"
    using average_range[OF b(1,2) n] by auto
  obtain ah where ah: "fdiv (of_int_js th) (of_int_js (int n)) = Fin ah" "0 \<le> ah" "ah \<le> 60"
    using average_range[OF b(3,4) n] by auto
  obtain ap where ap: "fdiv (of_int_js tp) (of_int_js (int n)) = Fin ap" "0 \<le> ap" "ap \<le> 40"
    using average_range[OF b(5,6) n] by auto
  obtain ao where ao: "fdiv (of_int_js to) (of_int_js (int n)) = Fin ao" "0 \<le> ao" "ao \<le> 20"
    using average_range[OF b(7,8) n] by auto
  obtain s1 where s1: "fadd (Fin af) (Fin ah) = Fin s1" "0 \<le> s1" "s1 \<le> 280"
    using fadd_range[OF af(2,3) ah(2,3)] by auto
  obtain s2 where s2: "fadd (Fin s1) (Fin ap) = Fin s2" "0 \<le> s2" "s2 \<le> 640"
    using fadd_range[OF s1(2,3) ap(2,3)] by auto
  obtain s3 where s3: "fadd (Fin s2) (Fin ao) = Fin s3" "0 \<le> s3" "s3 \<le> 1320"
    using fadd_range[OF s2(2,3) ao(2,3)] by auto
  define ev where "ev = length (filter (\<lambda>n. n smod 2 = 0) nums)"
  define lc where "lc = length (filter (\<lambda>n. n \<le> 25) nums)"
  define bonus :: int where "bonus = (if 2 \<le> ev \<and> ev \<le> 3 then 3 else 0) + (if 2 \<le> lc \<and> lc \<le> 3 then 3 else 0)"
  have bn: "(0::rat) \<le> of_int bonus" "(of_int bonus :: rat) \<le> 6" by (simp_all add: bonus_def)
  obtain s4 where s4: "fadd (Fin s3) (of_int_js bonus) = Fin s4" "0 \<le> s4"
    using fadd_range[OF s3(2,3) bn] by (auto simp: of_int_js_def)
  define m where "m = (if s4 < 100 then s4 else 100)"
  have m: "Math_min (Fin 100) (Fin s4) = Fin m" "0 \<le> m" "m \<le> 100"
    using s4(2) by (simp_all add: Math_min_def m_def)
  have "probabilityScore (scoreCombination nums strs draws)
      = round1 (Math_min (Fin 100)
          (fadd (fadd (fadd (fadd (fdiv (of_int_js tf) (of_int_js (int n)))
                                  (fdiv (of_int_js th) (of_int_js (int n))))
                            (fdiv (of_int_js tp) (of_int_js (int n))))
                      (fdiv (of_int_js to) (of_int_js (int n))))
                (of_int_js bonus)))"
    by (simp add: scoreCombination_def t1 t2 Let_def n_def ev_def lc_def bonus_def)
  also have "\<dots> = round1 (Fin m)"
    by (simp only: af(1) ah(1) ap(1) ao(1) s1(1) s2(1) s3(1) s4(1) m(1))
  finally have "probabilityScore (scoreCombination nums strs draws) = round1 (Fin m)" .
  then show ?thesis using round1_on_grid[OF m(2,3)] by simp
qed

lemma scoreCombination_fields [simp]:
  "CombinationScore.numbers (scoreCombination nums strs draws) = nums"
  "CombinationScore.stars (scoreCombination nums strs draws) = strs"
  by (simp_all add: scoreCombination_def Let_def split: prod.splits)

lemma generate_slot_valid:
  fixes msin draws i
  defines "c \<equiv> generate_slot msin draws (getAllNumberProbabilities draws Numbers)
                   (getAllNumberProbabilities draws Stars) i"
  shows "length (CombinationScore.numbers c) = 5 \<and> distinct (CombinationScore.numbers c)
         \<and> set (CombinationScore.numbers c) \<subseteq> {1..50}
         \<and> length (CombinationScore.stars c) = 2 \<and> distinct (CombinationScore.stars c)
         \<and> set (CombinationScore.stars c) \<subseteq> {1..12}
         \<and> (\<exists>v. probabilityScore c = Fin v \<and> on_grid v)"
proof -
  define np where "np = getAllNumberProbabilities draws Numbers"
  define sp where "sp = getAllNumberProbabilities draws Stars"
  have np: "distinct (map NumberProbability.number np)" "NumberProbability.number ` set np = {1..50}"
    "5 \<le> length np"
    using getAllNumberProbabilities_pool[of draws Numbers] by (simp_all add: np_def)
  have sp: "distinct (map NumberProbability.number sp)" "NumberProbability.number ` set sp = {1..12}"
    "2 \<le> length sp"
    using getAllNumberProbabilities_pool[of draws Stars] by (simp_all add: sp_def)
  define nums where "nums = (if i = 0 then selectBestNumbers np
     else if i = 1 then selectBalancedNumbers np
     else if i = 2 then selectPatternNumbers np
     else selectWeightedRandomNumbers msin np i)"
  define strs where "strs = (if i = 0 then selectBestStars sp
     else if i = 1 then selectBalancedStars sp
     else if i = 2 then selectBestStars sp
     else selectWeightedRandomStars msin sp i)"
  have nv: "length nums = 5 \<and> distinct nums \<and> set nums \<subseteq> {1..50}"
    using selectBestNumbers_valid[OF np(1,3)] selectBalancedNumbers_valid[OF np(1,3)]
      selectPatternNumbers_valid[OF np(1,3)] selectWeightedRandomNumbers_valid[OF np(1,3), of msin i]
    unfolding nums_def np(2) by simp
  have sv: "length strs = 2 \<and> distinct strs \<and> set strs \<subseteq> {1..12}"
    using selectBestStars_valid[OF sp(1,3)] selectBalancedStars_valid[OF sp(1,3)]
      selectWeightedRandomStars_valid[OF sp(1,3), of msin i]
    unfolding strs_def sp(2) by simp
  have c: "CombinationScore.numbers c = nums" "CombinationScore.stars c = strs"
    "probabilityScore c = probabilityScore (scoreCombination nums strs draws)"
    unfolding c_def generate_slot_def np_def[symmetric] sp_def[symmetric]
    by (simp_all add: nums_def strs_def Let_def CombinationScore.defs)
  have "0 < length nums + length strs" using nv by simp
  from probabilityScore_on_grid[OF this] nv sv show ?thesis unfolding c by simp
qed

lemma rerank_nth:
  assumes "i < length xs"
  shows "map (\<lambda>(index, combo). combo\<lparr>rank := int index + 1\<rparr>) (enumerate 0 xs) ! i
           = (xs ! i)\<lparr>rank := int i + 1\<rparr>"
  using assms by (simp add: nth_enumerate_eq)

text \<open>
  C5. For every history, every integer count and every sine, generateTopCombinations
  clamps the count into 1..10 (a count in that range is kept, no count is rejected) and
  returns that many combinations, sorted by probabilityScore descending, with the ranks
  1, 2, ... up to the clamped count in this order; each combination has 5 distinct numbers
  of 1..50 and 2 distinct stars of 1..12.
\<close>

theorem generateTopCombinations_result:
  "(let n = min 10 (max 1 cnt); r = generateTopCombinations msin draws cnt in
      1 \<le> n \<and> n \<le> 10 \<and> (1 \<le> cnt \<and> cnt \<le> 10 \<longrightarrow> n = cnt)
      \<and> int (length r) = n
      \<and> sorted_wrt (\<lambda>a b. fge (probabilityScore a) (probabilityScore b)) r
      \<and> map rank r = [1..n]
      \<and> (\<forall>c \<in> set r.
            length (CombinationScore.numbers c) = 5 \<and> distinct (CombinationScore.numbers c)
            \<and> set (CombinationScore.numbers c) \<subseteq> {1..50}
            \<and> length (CombinationScore.stars c) = 2 \<and> distinct (CombinationScore.stars c)
            \<and> set (CombinationScore.stars c) \<subseteq> {1..12}))"
proof -
  define n where "n = min 10 (max 1 cnt)"
  define combos where "combos = map (generate_slot msin draws (getAllNumberProbabilities draws Numbers)
      (getAllNumberProbabilities draws Stars)) [0..n - 1]"
  define ordered where "ordered = sort_by (\<lambda>a b. fgt (fsub (probabilityScore b) (probabilityScore a)) (Fin 0)) combos"
  define r where "r = map (\<lambda>(index, combo). combo\<lparr>rank := int index + 1\<rparr>) (enumerate 0 ordered)"
  define key where "key = (\<lambda>c :: GeneratedCombination. - (case probabilityScore c of Fin v \<Rightarrow> v | _ \<Rightarrow> 0))"
  have res: "generateTopCombinations msin draws cnt = r"
    unfolding generateTopCombinations_def Let_def r_def ordered_def combos_def n_def ..
  have n: "1 \<le> n" "n \<le> 10" "1 \<le> cnt \<and> cnt \<le> 10 \<longrightarrow> n = cnt" by (auto simp: n_def)
  have valid: "length (CombinationScore.numbers c) = 5 \<and> distinct (CombinationScore.numbers c)
            \<and> set (CombinationScore.numbers c) \<subseteq> {1..50}
            \<and> length (CombinationScore.stars c) = 2 \<and> distinct (CombinationScore.stars c)
            \<and> set (CombinationScore.stars c) \<subseteq> {1..12}
            \<and> (\<exists>v. probabilityScore c = Fin v \<and> on_grid v)" if "c \<in> set combos" for c
  proof -
    from that obtain i where "c = generate_slot msin draws (getAllNumberProbabilities draws Numbers)
      (getAllNumberProbabilities draws Stars) i" unfolding combos_def by (auto simp del: upto.simps)
    then show ?thesis using generate_slot_valid[of msin draws i] by simp
  qed
  have "ordered = sort_key key combos"
    unfolding ordered_def
  proof (rule sort_by_sort_key)
    fix a b assume ab: "a \<in> set combos" "b \<in> set combos"
    from valid[OF ab(1)] obtain va where va: "probabilityScore a = Fin va" "on_grid va" by blast
    from valid[OF ab(2)] obtain vb where vb: "probabilityScore b = Fin vb" "on_grid vb" by blast
    show "fgt (fsub (probabilityScore b) (probabilityScore a)) (Fin 0) = (key b < key a)"
      unfolding va(1) vb(1) comparator_consistent[OF va(2) vb(2)] by (simp add: key_def va(1) vb(1))
  qed
  then have so: "sorted_wrt (\<lambda>a b. key a \<le> key b) ordered"
    using sorted_sort_key[of key combos] by (simp add: sorted_map)
  have set_o: "set ordered = set combos" by (simp add: ordered_def set_sort_by)
  have len_o: "length ordered = nat n" by (simp add: ordered_def length_sort_by combos_def)
  have desc: "sorted_wrt (\<lambda>a b. fge (probabilityScore a) (probabilityScore b)) ordered"
  proof (rule sorted_wrt_mono_rel[OF _ so])
    fix a b assume ab: "a \<in> set ordered" "b \<in> set ordered" "key a \<le> key b"
    from valid[of a] ab(1) set_o obtain va where va: "probabilityScore a = Fin va" by blast
    from valid[of b] ab(2) set_o obtain vb where vb: "probabilityScore b = Fin vb" by blast
    show "fge (probabilityScore a) (probabilityScore b)"
      using ab(3) by (simp add: key_def fge_def fle_def not_less va vb)
  qed
  have len_r: "length r = nat n" by (simp add: r_def len_o)
  have nth_r: "r ! i = (ordered ! i)\<lparr>rank := int i + 1\<rparr>" if "i < nat n" for i
    unfolding r_def using that len_o by (intro rerank_nth) simp
  have f1: "sorted_wrt (\<lambda>a b. fge (probabilityScore a) (probabilityScore b)) r"
    unfolding sorted_wrt_iff_nth_less
  proof (intro allI impI)
    fix i j assume "i < j" "j < length r"
    then have "i < nat n" "j < nat n" "i < j" "j < length ordered" using len_r len_o by simp_all
    then show "fge (probabilityScore (r ! i)) (probabilityScore (r ! j))"
      using desc[unfolded sorted_wrt_iff_nth_less] by (simp add: nth_r)
  qed
  have f2: "map rank r = [1..n]"
  proof (rule nth_equalityI)
    show "length (map rank r) = length [1..n]" using n(1) by (simp add: len_r)
  next
    fix i assume "i < length (map rank r)"
    then have i: "i < nat n" by (simp add: len_r)
    then have "1 + int i \<le> n" by simp
    then have "[1..n] ! i = 1 + int i" by (rule nth_upto)
    then show "map rank r ! i = [1..n] ! i" using i by (simp add: len_r nth_r)
  qed
  have f3: "\<forall>c \<in> set r.
            length (CombinationScore.numbers c) = 5 \<and> distinct (CombinationScore.numbers c)
            \<and> set (CombinationScore.numbers c) \<subseteq> {1..50}
            \<and> length (CombinationScore.stars c) = 2 \<and> distinct (CombinationScore.stars c)
            \<and> set (CombinationScore.stars c) \<subseteq> {1..12}"
  proof
    fix c assume "c \<in> set r"
    then obtain i where i: "i < nat n" "c = r ! i" using len_r by (auto simp: in_set_conv_nth)
    then have "ordered ! i \<in> set combos" using len_o set_o nth_mem by metis
    from valid[OF this] show "length (CombinationScore.numbers c) = 5 \<and> distinct (CombinationScore.numbers c)
            \<and> set (CombinationScore.numbers c) \<subseteq> {1..50}
            \<and> length (CombinationScore.stars c) = 2 \<and> distinct (CombinationScore.stars c)
            \<and> set (CombinationScore.stars c) \<subseteq> {1..12}"
      using i by (simp add: nth_r)
  qed
  have f4: "int (length r) = n" using n(1) by (simp add: len_r)
  show ?thesis unfolding Let_def res n_def[symmetric]
    by (intro conjI) (rule n f1 f2 f3 f4)+
qed


theorem generateTopCombinations_result_witness:
  "length (generateTopCombinations (\<lambda>x. Fin 0) [] 5) = 5
   \<and> map rank (generateTopCombinations (\<lambda>x. Fin 0) [] 5) = [1, 2, 3, 4, 5]
   \<and> length (generateTopCombinations (\<lambda>x. Fin 0) [] 0) = 1
   \<and> length (generateTopCombinations (\<lambda>x. Fin 0) [] 99) = 10"
proof -
  have "[1..5] = [1, 2, 3, 4, 5::int]" by (simp add: upto.simps)
  then show ?thesis
    using generateTopCombinations_result[of 5 "\<lambda>x. Fin 0" "[]"]
      generateTopCombinations_result[of 0 "\<lambda>x. Fin 0" "[]"]
      generateTopCombinations_result[of 99 "\<lambda>x. Fin 0" "[]"]
    by (simp add: Let_def)
qed

end
